theory Spec2Isabelle
  imports Main "HOL-Library.Product_Lexorder" "HOL-Library.Multiset"
begin

section \<open>Data model (types.ts)\<close>

datatype Suit = Spades | Hearts | Diamonds | Clubs

datatype Rank = RA | R2 | R3 | R4 | R5 | R6 | R7 | R8 | R9 | R10 | RJ | RQ | RK

datatype Difficulty = Easy | Medium | Hard

text \<open>
  A card id is the template string \<open>`${gameTimestamp}-${suit}-${rank}-${globalCardId++}`\<close>.
  The string is determined by, and determines, its four components, so the id is kept as
  the tuple of the components. Such a string is never empty, hence always truthy.
\<close>

datatype CardId = CardId nat Suit Rank nat

record Card =
  cid :: CardId
  suit :: Suit
  rank :: Rank
  faceUp :: bool

record Pile =
  cards :: "Card list"

text \<open>The id of a completed sequence is \<open>`${result.suit}-${Date.now()}-${i}`\<close>.\<close>

datatype SeqId = SeqId Suit nat nat

record CompletedSequence =
  seq_id :: SeqId
  seq_suit :: Suit

record GameState =
  tableau :: "Pile list"
  stock :: "Card list"
  completedSequences :: "CompletedSequence list"
  moves :: int
  gameWon :: bool
  difficulty :: Difficulty


section \<open>Rules engine (gameLogic.ts)\<close>

definition allSuits :: "Suit list" where
  "allSuits = [Spades, Hearts, Diamonds, Clubs]"

definition ranks :: "Rank list" where
  "ranks = [RA, R2, R3, R4, R5, R6, R7, R8, R9, R10, RJ, RQ, RK]"

fun rankValues :: "Rank \<Rightarrow> int" where
  "rankValues RA = 1"
| "rankValues R2 = 2"
| "rankValues R3 = 3"
| "rankValues R4 = 4"
| "rankValues R5 = 5"
| "rankValues R6 = 6"
| "rankValues R7 = 7"
| "rankValues R8 = 8"
| "rankValues R9 = 9"
| "rankValues R10 = 10"
| "rankValues RJ = 11"
| "rankValues RQ = 12"
| "rankValues RK = 13"

subsection \<open>createDeck\<close>

fun suitsToUse :: "Difficulty \<Rightarrow> Suit list" where
  "suitsToUse Easy = [Spades, Spades, Spades, Spades, Spades, Spades, Spades, Spades]"
| "suitsToUse Medium = [Spades, Spades, Spades, Spades, Hearts, Hearts, Hearts, Hearts]"
| "suitsToUse Hard = [Spades, Spades, Hearts, Hearts, Diamonds, Diamonds, Clubs, Clubs]"

text \<open>
  The inner loop over \<open>ranks\<close>: one card is pushed per rank and the global counter
  \<open>globalCardId\<close> is incremented for each. The loop returns the cards pushed and the
  counter it leaves.
\<close>

fun pushRanks :: "nat \<Rightarrow> Suit \<Rightarrow> nat \<Rightarrow> Rank list \<Rightarrow> Card list \<times> nat" where
  "pushRanks ts su g [] = ([], g)"
| "pushRanks ts su g (r # rs) =
     (let (rest, g') = pushRanks ts su (Suc g) rs
      in (\<lparr>cid = CardId ts su r g, suit = su, rank = r, faceUp = False\<rparr> # rest, g'))"

text \<open>The outer loop over \<open>suitsToUse\<close>.\<close>

fun pushSuits :: "nat \<Rightarrow> nat \<Rightarrow> Suit list \<Rightarrow> Card list \<times> nat" where
  "pushSuits ts g [] = ([], g)"
| "pushSuits ts g (su # sus) =
     (let (block, g') = pushRanks ts su g ranks;
          (rest, g'') = pushSuits ts g' sus
      in (block @ rest, g''))"

text \<open>
  \<open>createDeck\<close> reads the clock (\<open>Date.now()\<close>, here \<open>ts\<close>) and the module-level counter
  \<open>globalCardId\<close> (here \<open>g\<close>).
\<close>

definition createDeck :: "Difficulty \<Rightarrow> nat \<Rightarrow> nat \<Rightarrow> Card list" where
  "createDeck d ts g = fst (pushSuits ts g (suitsToUse d))"

subsection \<open>shuffleDeck\<close>

text \<open>
  \<open>Math.floor(Math.random() * (i + 1))\<close> is some integer in \<open>[0, i]\<close>. The random source is
  an oracle \<open>rnd\<close> that is asked once for every \<open>i\<close>; its answer is reduced into that range.
\<close>

definition swap :: "nat \<Rightarrow> nat \<Rightarrow> 'a list \<Rightarrow> 'a list" where
  "swap i j xs = (xs[i := xs ! j])[j := xs ! i]"

fun shuffleLoop :: "(nat \<Rightarrow> nat) \<Rightarrow> nat \<Rightarrow> 'a list \<Rightarrow> 'a list" where
  "shuffleLoop rnd 0 xs = xs"
| "shuffleLoop rnd (Suc i) xs = shuffleLoop rnd i (swap (Suc i) (rnd (Suc i) mod (Suc i + 1)) xs)"

definition shuffleDeck :: "(nat \<Rightarrow> nat) \<Rightarrow> 'a list \<Rightarrow> 'a list" where
  "shuffleDeck rnd deck = shuffleLoop rnd (length deck - 1) deck"

subsection \<open>initializeGame\<close>

definition numCards :: "nat \<Rightarrow> nat" where
  "numCards col = (if col < 4 then 6 else 5)"

text \<open>
  The inner loop over \<open>row\<close> for one column: it reads \<open>deck[cardIndex++]\<close> and pushes the
  card with \<open>faceUp = (row = numCards - 1)\<close>.
\<close>

fun dealRows :: "Card list \<Rightarrow> nat \<Rightarrow> nat \<Rightarrow> nat \<Rightarrow> Card list" where
  "dealRows deck cardIndex n 0 = []"
| "dealRows deck cardIndex n (Suc k) =
     (deck ! cardIndex)\<lparr>faceUp := (n - Suc k = n - 1)\<rparr> # dealRows deck (Suc cardIndex) n k"

text \<open>
  The outer loop over the columns \<open>col, col + 1, \<dots>\<close> (\<open>m\<close> columns are left). In
  \<open>dealRows deck cardIndex n k\<close> the row being dealt is \<open>n - k\<close>.
\<close>

fun dealCols :: "Card list \<Rightarrow> nat \<Rightarrow> nat \<Rightarrow> nat \<Rightarrow> Pile list \<times> nat" where
  "dealCols deck cardIndex col 0 = ([], cardIndex)"
| "dealCols deck cardIndex col (Suc m) =
     (let n = numCards col;
          pile = \<lparr>cards = dealRows deck cardIndex n n\<rparr>;
          (rest, cardIndex') = dealCols deck (cardIndex + n) (Suc col) m
      in (pile # rest, cardIndex'))"

text \<open>
  The layout of a deck that is already shuffled. The deck has 104 cards whenever
  \<open>initializeGame\<close> calls it (lemma \<open>length_shuffled_deck\<close>), so every read
  \<open>deck[cardIndex]\<close> is in range.
\<close>

definition layout :: "Difficulty \<Rightarrow> Card list \<Rightarrow> GameState" where
  "layout d deck =
     (let (tab, cardIndex) = dealCols deck 0 0 10
      in \<lparr>tableau = tab, stock = drop cardIndex deck, completedSequences = [],
          moves = 0, gameWon = False, difficulty = d\<rparr>)"

definition initializeGame :: "Difficulty \<Rightarrow> nat \<Rightarrow> nat \<Rightarrow> (nat \<Rightarrow> nat) \<Rightarrow> GameState" where
  "initializeGame d ts g rnd = layout d (shuffleDeck rnd (createDeck d ts g))"

subsection \<open>canPlaceCard and getMovableCards\<close>

definition canPlaceCard :: "Card \<Rightarrow> Card option \<Rightarrow> bool" where
  "canPlaceCard cardToPlace targetCard =
     (case targetCard of
        None \<Rightarrow> True
      | Some t \<Rightarrow> rankValues (rank cardToPlace) = rankValues (rank t) - 1)"

text \<open>
  \<open>Array.prototype.slice(start)\<close>: a negative \<open>start\<close> counts from the end, and the start is
  clamped into \<open>[0, length]\<close>.
\<close>

definition sliceFrom :: "int \<Rightarrow> 'a list \<Rightarrow> 'a list" where
  "sliceFrom start xs =
     (let n = int (length xs);
          k = (if start < 0 then max (n + start) 0 else min start n)
      in drop (nat k) xs)"

text \<open>The checking loop of \<open>getMovableCards\<close>: true iff the loop runs to its end.\<close>

fun descendingLoop :: "Card list \<Rightarrow> bool" where
  "descendingLoop [] = True"
| "descendingLoop [c] = True"
| "descendingLoop (c # d # cs) =
     (if rankValues (rank c) \<noteq> rankValues (rank d) + 1 then False
      else descendingLoop (d # cs))"

definition getMovableCards :: "Pile \<Rightarrow> int \<Rightarrow> Card list" where
  "getMovableCards pile startIndex =
     (let cs = sliceFrom startIndex (cards pile)
      in if descendingLoop cs then cs else [])"

subsection \<open>checkForCompletedSequence\<close>

record SequenceResult =
  completed :: bool
  startIndex :: int
  res_suit :: "Suit option"

definition notCompleted :: SequenceResult where
  "notCompleted = \<lparr>completed = False, startIndex = -1, res_suit = None\<rparr>"

text \<open>
  The body of the scanning loop for one start index \<open>i\<close>, with \<open>i + 13 \<le> length\<close>: the
  window must be all face up, and the inner loop over \<open>j\<close> compares every card with the
  suit of the first and with \<open>ranks[12 - j]\<close>.
\<close>

definition windowValid :: "Card list \<Rightarrow> nat \<Rightarrow> bool" where
  "windowValid cs i =
     (let sq = take 13 (drop i cs)
      in list_all faceUp sq \<and>
         list_all (\<lambda>j. \<not> (suit (sq ! j) \<noteq> suit (sq ! 0) \<or> rank (sq ! j) \<noteq> ranks ! (12 - j)))
           [0..<13])"

text \<open>The scanning loop: \<open>i\<close> runs from \<open>length - 13\<close> down to \<open>0\<close>.\<close>

fun scanFrom :: "Card list \<Rightarrow> nat \<Rightarrow> SequenceResult" where
  "scanFrom cs 0 =
     (if windowValid cs 0
      then \<lparr>completed = True, startIndex = 0, res_suit = Some (suit (cs ! 0))\<rparr>
      else notCompleted)"
| "scanFrom cs (Suc i) =
     (if windowValid cs (Suc i)
      then \<lparr>completed = True, startIndex = int (Suc i), res_suit = Some (suit (cs ! Suc i))\<rparr>
      else scanFrom cs i)"

definition checkForCompletedSequence :: "Pile \<Rightarrow> SequenceResult" where
  "checkForCompletedSequence pile =
     (if length (cards pile) < 13 then notCompleted
      else scanFrom (cards pile) (length (cards pile) - 13))"

subsection \<open>dealFromStock\<close>

text \<open>
  What the source does outside its types. \<open>TypeError\<close>: a property of \<open>undefined\<close> is read,
  and the operation throws. \<open>NotACard\<close>: nothing is thrown, but \<open>{...undefined, faceUp: true}\<close>
  builds an object without id, suit and rank, which is no value of type \<open>Card\<close>; the model
  stops there.
\<close>

datatype fault = TypeError | NotACard

definition dealFromStock :: "GameState \<Rightarrow> fault + GameState" where
  "dealFromStock state =
     (if length (stock state) < 10 then Inr state
      else if length (stock state) < length (tableau state) then Inl NotACard
      else Inr (state\<lparr>
        tableau := map (\<lambda>(pile, index). \<lparr>cards = cards pile @ [(stock state ! index)\<lparr>faceUp := True\<rparr>]\<rparr>)
                     (zip (tableau state) [0..<length (tableau state)]),
        stock := drop 10 (stock state),
        moves := moves state + 1\<rparr>))"

subsection \<open>Hint advisor: findMeaningfulMoves and hasValidMoves\<close>

record MeaningfulMove =
  sourcePile :: int
  cardIndex :: int
  targetPile :: int
  priority :: int
  reason :: string

text \<open>
  The backward loop of \<open>getSequenceLengthFromEnd\<close>, over the cards below the last one, from
  the top down: \<open>nextCard\<close> is the card above \<open>currentCard\<close>; the result is the number of
  times \<open>length++\<close> runs before the loop breaks or ends.
\<close>

fun countBackward :: "Suit \<Rightarrow> Card \<Rightarrow> Card list \<Rightarrow> nat" where
  "countBackward su nextCard [] = 0"
| "countBackward su nextCard (currentCard # below) =
     (if \<not> faceUp currentCard \<or> suit currentCard \<noteq> su then 0
      else if rankValues (rank currentCard) \<noteq> rankValues (rank nextCard) + 1 then 0
      else Suc (countBackward su currentCard below))"

definition getSequenceLengthFromEnd :: "Pile \<Rightarrow> nat" where
  "getSequenceLengthFromEnd pile =
     (if length (cards pile) = 0 then 0
      else let lastCard = last (cards pile)
           in if \<not> faceUp lastCard then 0
              else 1 + countBackward (suit lastCard) lastCard (rev (butlast (cards pile))))"

text \<open>\<open>cards[cards.length - 1] || null\<close>\<close>

definition topCard :: "Pile \<Rightarrow> Card option" where
  "topCard pile = (if cards pile = [] then None else Some (last (cards pile)))"

text \<open>
  The body of the innermost loop (over \<open>targetPileIdx\<close>): the moves it pushes, none or one.
  Every \<open>continue\<close> of the source is a branch that pushes nothing more.
\<close>

definition targetBody ::
  "GameState \<Rightarrow> nat \<Rightarrow> nat \<Rightarrow> Card list \<Rightarrow> bool \<Rightarrow> nat \<Rightarrow> MeaningfulMove list" where
  "targetBody state sourcePileIdx cardIdx movableCards wouldFlipCard targetPileIdx =
     (if targetPileIdx = sourcePileIdx then []
      else
        let sourcePile = tableau state ! sourcePileIdx;
            firstCard = hd movableCards;
            targetPile = tableau state ! targetPileIdx;
            targetCard = topCard targetPile
        in if \<not> canPlaceCard firstCard targetCard then []
           else case targetCard of
             None \<Rightarrow>
               [\<lparr>sourcePile = int sourcePileIdx, cardIndex = int cardIdx,
                 targetPile = int targetPileIdx,
                 priority = (if wouldFlipCard then 80 else 50),
                 reason = (if wouldFlipCard then ''Move to empty & flip card''
                           else ''Move to empty column'')\<rparr>]
           | Some tc \<Rightarrow>
               if wouldFlipCard then
                 [\<lparr>sourcePile = int sourcePileIdx, cardIndex = int cardIdx,
                   targetPile = int targetPileIdx,
                   priority = (if suit firstCard = suit tc then 100 else 70),
                   reason = (if suit firstCard = suit tc then ''Join same suit & flip card''
                             else ''Flip a face-down card'')\<rparr>]
               else if suit firstCard = suit tc then
                 (let targetCurrentSeq = getSequenceLengthFromEnd targetPile;
                      potentialNewSeq = targetCurrentSeq + length movableCards;
                      sourceSeqFromMovedCards = length movableCards
                  in if cardIdx > 0 \<and>
                        (let cardBefore = cards sourcePile ! (cardIdx - 1)
                         in faceUp cardBefore \<and> suit cardBefore = suit firstCard \<and>
                            rankValues (rank cardBefore) = rankValues (rank firstCard) + 1)
                     then []
                     else if potentialNewSeq > sourceSeqFromMovedCards then
                       [\<lparr>sourcePile = int sourcePileIdx, cardIndex = int cardIdx,
                         targetPile = int targetPileIdx, priority = 60,
                         reason = ''Build longer sequence''\<rparr>]
                     else [])
               else [])"

text \<open>The body of the middle loop (over \<open>cardIdx\<close>).\<close>

definition cardBody :: "GameState \<Rightarrow> nat \<Rightarrow> nat \<Rightarrow> MeaningfulMove list" where
  "cardBody state sourcePileIdx cardIdx =
     (let sourcePile = tableau state ! sourcePileIdx;
          card = cards sourcePile ! cardIdx
      in if \<not> faceUp card then []
         else let movableCards = getMovableCards sourcePile (int cardIdx)
              in if length movableCards = 0 then []
                 else let wouldFlipCard =
                            (cardIdx > 0 \<and> \<not> faceUp (cards sourcePile ! (cardIdx - 1)))
                      in concat (map (targetBody state sourcePileIdx cardIdx movableCards wouldFlipCard)
                                   [0..<length (tableau state)]))"

text \<open>The moves in the order in which the three nested loops push them.\<close>

definition discoveredMoves :: "GameState \<Rightarrow> MeaningfulMove list" where
  "discoveredMoves state =
     concat (map (\<lambda>sourcePileIdx.
                concat (map (cardBody state sourcePileIdx)
                          [0..<length (cards (tableau state ! sourcePileIdx))]))
             [0..<length (tableau state)])"

text \<open>
  \<open>moves.sort((a, b) => b.priority - a.priority)\<close>: \<open>Array.prototype.sort\<close> is stable, and so
  is \<open>sort_key\<close>.
\<close>

definition findMeaningfulMoves :: "GameState \<Rightarrow> MeaningfulMove list" where
  "findMeaningfulMoves state = sort_key (\<lambda>m. - priority m) (discoveredMoves state)"

definition hasValidMoves :: "GameState \<Rightarrow> bool" where
  "hasValidMoves state =
     (if length (stock state) \<ge> 10 \<and> list_all (\<lambda>pile. length (cards pile) > 0) (tableau state)
      then True
      else length (findMeaningfulMoves state) > 0)"

section \<open>The game store (gameStore.svelte.ts)\<close>

datatype HistoryType = MoveT | DealT

record FlippedCard =
  fc_pileIndex :: int
  fc_cardId :: CardId

record CompletedInfo =
  ci_pileIndex :: nat
  ci_cards :: "Card list"
  ci_suit :: Suit
  ci_flippedCard :: "CardId option"

text \<open>
  \<open>MoveHistory\<close>: the optional fields are options. A deal is recorded with \<open>from = to = -1\<close>,
  so the pile indices of a record are integers.
\<close>

record MoveHistory =
  h_type :: "HistoryType option"
  h_from :: int
  h_to :: int
  h_cards :: "Card list"
  h_flippedCard :: "FlippedCard option"
  h_dealtCards :: "Card list list option"
  h_completedSequences :: "CompletedInfo list option"

text \<open>
  The fields of class \<open>SpiderSolitaireGame\<close>. \<open>canDeal\<close> and \<open>noMovesLeft\<close> are derived values
  and are functions of the store below.
\<close>

record Game =
  state :: GameState
  history :: "MoveHistory list"
  selectedPile :: "nat option"
  selectedCardIndex :: "nat option"
  gameKey :: nat
  initialState :: GameState
  hint :: "MeaningfulMove option"

definition canDeal :: "Game \<Rightarrow> bool" where
  "canDeal g = (length (stock (state g)) \<ge> 10 \<and>
                list_all (\<lambda>pile. length (cards pile) > 0) (tableau (state g)))"

definition noMovesLeft :: "Game \<Rightarrow> bool" where
  "noMovesLeft g = (\<not> gameWon (state g) \<and> moves (state g) > 0 \<and> \<not> hasValidMoves (state g))"

definition clearSelection :: "Game \<Rightarrow> Game" where
  "clearSelection g = g\<lparr>selectedPile := None, selectedCardIndex := None\<rparr>"

text \<open>
  The constructor: the field initialisers call \<open>initializeGame('easy')\<close> twice, once for
  \<open>state\<close> and once for \<open>initialState\<close>, each with its own clock, counter and shuffle.
\<close>

definition newStore ::
  "nat \<Rightarrow> nat \<Rightarrow> (nat \<Rightarrow> nat) \<Rightarrow> nat \<Rightarrow> nat \<Rightarrow> nat \<Rightarrow> (nat \<Rightarrow> nat) \<Rightarrow> Game" where
  "newStore ts g rnd now ts' g' rnd' =
     \<lparr>state = initializeGame Easy ts g rnd, history = [], selectedPile = None,
      selectedCardIndex = None, gameKey = now,
      initialState = initializeGame Easy ts' g' rnd', hint = None\<rparr>"

text \<open>\<open>JSON.parse(JSON.stringify(x))\<close> is a deep copy: the same value.\<close>

definition newGame :: "Game \<Rightarrow> Difficulty option \<Rightarrow> nat \<Rightarrow> nat \<Rightarrow> (nat \<Rightarrow> nat) \<Rightarrow> nat \<Rightarrow> Game" where
  "newGame g diffOpt ts gid rnd now =
     (let diff = (case diffOpt of Some d \<Rightarrow> d | None \<Rightarrow> difficulty (state g));
          st = initializeGame diff ts gid rnd
      in g\<lparr>state := st, initialState := st, history := [], selectedPile := None,
           selectedCardIndex := None, hint := None, gameKey := now\<rparr>)"

definition restartGame :: "Game \<Rightarrow> nat \<Rightarrow> Game" where
  "restartGame g now =
     g\<lparr>state := initialState g, history := [], selectedPile := None,
       selectedCardIndex := None, gameKey := now\<rparr>"

subsection \<open>checkCompletedSequences\<close>

text \<open>Flip the top card of a list if there is one and it is face down.\<close>

definition flipTop :: "Card list \<Rightarrow> Card list \<times> CardId option" where
  "flipTop cs =
     (if length cs > 0 \<and> \<not> faceUp (cs ! (length cs - 1))
      then (cs[length cs - 1 := (cs ! (length cs - 1))\<lparr>faceUp := True\<rparr>],
            Some (cid (cs ! (length cs - 1))))
      else (cs, None))"

text \<open>
  The callback of \<open>tableau.map\<close> in \<open>checkCompletedSequences\<close> for pile \<open>i\<close>: the new pile,
  and what it pushes to \<open>completedThisCheck\<close> and to \<open>newCompletedSequences\<close>, if anything.
  \<open>clock i\<close> is the value of \<open>Date.now()\<close> read in that call.
\<close>

definition checkPile ::
  "(nat \<Rightarrow> nat) \<Rightarrow> Pile \<times> nat \<Rightarrow> Pile \<times> (CompletedInfo \<times> CompletedSequence) option" where
  "checkPile clock = (\<lambda>(pile, i).
     let result = checkForCompletedSequence pile
     in case (completed result, res_suit result) of
          (True, Some su) \<Rightarrow>
            (let completedCards = take 13 (drop (nat (startIndex result)) (cards pile));
                 (remainingCards, flippedCardId) = flipTop (take (nat (startIndex result)) (cards pile))
             in (\<lparr>cards = remainingCards\<rparr>,
                 Some (\<lparr>ci_pileIndex = i, ci_cards = completedCards, ci_suit = su,
                        ci_flippedCard = flippedCardId\<rparr>,
                       \<lparr>seq_id = SeqId su (clock i) i, seq_suit = su\<rparr>)))
        | _ \<Rightarrow> (pile, None))"

definition checkCompletedSequences :: "(nat \<Rightarrow> nat) \<Rightarrow> Game \<Rightarrow> Game" where
  "checkCompletedSequences clock g =
     (let results = map (checkPile clock) (zip (tableau (state g)) [0..<length (tableau (state g))]);
          newTableau = map fst results;
          pushed = List.map_filter snd results;
          completedThisCheck = map fst pushed;
          newCompletedSequences = completedSequences (state g) @ map snd pushed;
          hasChanges = (pushed \<noteq> [])
      in if hasChanges then
           g\<lparr>state := (state g)\<lparr>tableau := newTableau,
                                 completedSequences := newCompletedSequences,
                                 gameWon := (length newCompletedSequences = 8)\<rparr>,
             history := (if length (history g) > 0 \<and> length completedThisCheck > 0
                         then (history g)[length (history g) - 1 :=
                                (history g ! (length (history g) - 1))
                                  \<lparr>h_completedSequences := Some completedThisCheck\<rparr>]
                         else history g)\<rparr>
         else g)"

subsection \<open>moveCards\<close>

definition moveCards :: "(nat \<Rightarrow> nat) \<Rightarrow> Game \<Rightarrow> nat \<Rightarrow> fault + Game" where
  "moveCards clock g targetPileIndex =
     (case (selectedPile g, selectedCardIndex g) of
        (Some sp, Some sci) \<Rightarrow>
          if sp = targetPileIndex then Inr (clearSelection g)
          else if sp \<ge> length (tableau (state g)) then Inl TypeError
          else
            let sourcePile = tableau (state g) ! sp;
                cardsToMove = getMovableCards sourcePile (int sci)
            in if length cardsToMove = 0 then Inr (clearSelection g)
               else if targetPileIndex \<ge> length (tableau (state g)) then Inl TypeError
               else
                 let targetPile = tableau (state g) ! targetPileIndex;
                     targetCard = topCard targetPile
                 in if \<not> canPlaceCard (hd cardsToMove) targetCard then Inr (clearSelection g)
                    else
                      let (newSourceCards, flipped) = flipTop (take sci (cards sourcePile));
                          historyEntry =
                            \<lparr>h_type = None, h_from = int sp, h_to = int targetPileIndex,
                             h_cards = cardsToMove,
                             h_flippedCard =
                               (case flipped of None \<Rightarrow> None
                                | Some i \<Rightarrow> Some \<lparr>fc_pileIndex = int sp, fc_cardId = i\<rparr>),
                             h_dealtCards = None, h_completedSequences = None\<rparr>;
                          newTableau =
                            map (\<lambda>(pile, idx).
                                   if idx = sp then \<lparr>cards = newSourceCards\<rparr>
                                   else if idx = targetPileIndex
                                        then \<lparr>cards = cards targetPile @ cardsToMove\<rparr>
                                        else pile)
                              (zip (tableau (state g)) [0..<length (tableau (state g))])
                      in Inr (checkCompletedSequences clock
                               (clearSelection
                                 (g\<lparr>state := (state g)\<lparr>tableau := newTableau,
                                                        moves := moves (state g) + 1\<rparr>,
                                    history := history g @ [historyEntry]\<rparr>)))
      | _ \<Rightarrow> Inr g)"

subsection \<open>selectCards and findBestMove\<close>

record ValidMove =
  vm_pileIndex :: nat
  orderedCount :: nat
  hasUnordered :: bool

text \<open>
  The counting loop of \<open>findBestMove\<close> over the target pile, from the top down: the list is
  the pile reversed, \<open>current\<close> is its head and \<open>prev\<close> the card below. It returns the
  number of times \<open>orderedCount++\<close> runs in the loop, and \<open>hasUnordered\<close>.
\<close>

fun orderedLoop :: "Card list \<Rightarrow> nat \<times> bool" where
  "orderedLoop (current # prev # below) =
     (if \<not> faceUp current \<or> \<not> faceUp prev then (0, True)
      else if rankValues (rank prev) = rankValues (rank current) + 1
           then (let (n, u) = orderedLoop (prev # below) in (Suc n, u))
           else (0, True))"
| "orderedLoop cs = (0, False)"

definition validMoveFor :: "GameState \<Rightarrow> Card \<Rightarrow> nat \<Rightarrow> nat \<Rightarrow> ValidMove list" where
  "validMoveFor st firstCard sourcePileIndex i =
     (if i = sourcePileIndex then []
      else let targetPile = tableau st ! i;
               targetCard = topCard targetPile
           in if canPlaceCard firstCard targetCard
              then (let (n, u) = orderedLoop (rev (cards targetPile))
                    in [\<lparr>vm_pileIndex = i,
                         orderedCount = (if length (cards targetPile) > 0 then Suc n else n),
                         hasUnordered = u\<rparr>])
              else [])"

text \<open>
  The comparator of \<open>validMoves.sort\<close> orders by descending \<open>orderedCount\<close>, then piles
  without unordered cards first; the sort is stable.
\<close>

definition findBestMove :: "Game \<Rightarrow> nat \<Rightarrow> nat \<Rightarrow> fault + nat option" where
  "findBestMove g sourcePileIndex cardIdx =
     (if sourcePileIndex \<ge> length (tableau (state g)) then Inl TypeError
      else
        let sourcePile = tableau (state g) ! sourcePileIndex;
            cardsToMove = getMovableCards sourcePile (int cardIdx)
        in if length cardsToMove = 0 then Inr None
           else
             let validMoves = concat (map (validMoveFor (state g) (hd cardsToMove) sourcePileIndex)
                                        [0..<length (tableau (state g))])
             in if length validMoves = 0 then Inr None
                else Inr (Some (vm_pileIndex
                       (hd (sort_key (\<lambda>v. (- int (orderedCount v), hasUnordered v)) validMoves)))))"

definition selectCards :: "(nat \<Rightarrow> nat) \<Rightarrow> Game \<Rightarrow> nat \<Rightarrow> nat \<Rightarrow> bool \<Rightarrow> fault + Game" where
  "selectCards clock g pileIndex cardIdx skipAutoMove =
     (if pileIndex \<ge> length (tableau (state g)) then Inl TypeError
      else
        let pile = tableau (state g) ! pileIndex
        in if cardIdx \<ge> length (cards pile) then Inl TypeError
           else if \<not> faceUp (cards pile ! cardIdx) then Inr g
           else if length (getMovableCards pile (int cardIdx)) = 0 then Inr g
           else
             let selected = g\<lparr>selectedPile := Some pileIndex, selectedCardIndex := Some cardIdx\<rparr>
             in if skipAutoMove then Inr selected
                else case findBestMove g pileIndex cardIdx of
                       Inl e \<Rightarrow> Inl e
                     | Inr (Some bestPile) \<Rightarrow>
                         if bestPile \<noteq> pileIndex then moveCards clock selected bestPile
                         else Inr selected
                     | Inr None \<Rightarrow> Inr selected)"

subsection \<open>deal\<close>

definition deal :: "(nat \<Rightarrow> nat) \<Rightarrow> Game \<Rightarrow> fault + Game" where
  "deal clock g =
     (if \<not> canDeal g then Inr g
      else
        let dealtCards = map (\<lambda>i. [stock (state g) ! i]) [0..<10];
            historyEntry =
              \<lparr>h_type = Some DealT, h_from = -1, h_to = -1, h_cards = [],
               h_flippedCard = None, h_dealtCards = Some dealtCards,
               h_completedSequences = None\<rparr>
        in case dealFromStock (state g) of
             Inl e \<Rightarrow> Inl e
           | Inr st \<Rightarrow>
               Inr (checkCompletedSequences clock
                     (clearSelection (g\<lparr>state := st, history := history g @ [historyEntry]\<rparr>))))"

subsection \<open>undo\<close>

fun findIndex :: "('a \<Rightarrow> bool) \<Rightarrow> 'a list \<Rightarrow> nat option" where
  "findIndex P [] = None"
| "findIndex P (x # xs) =
     (if P x then Some 0 else case findIndex P xs of None \<Rightarrow> None | Some k \<Rightarrow> Some (Suc k))"

text \<open>
  \<open>const k = cards.findIndex(c => c.id === cardId); if (k !== -1) cards[k] = {...cards[k],
  faceUp: false}\<close>
\<close>

definition flipBack :: "CardId \<Rightarrow> Card list \<Rightarrow> Card list" where
  "flipBack i cs =
     (case findIndex (\<lambda>c. cid c = i) cs of
        None \<Rightarrow> cs
      | Some k \<Rightarrow> cs[k := (cs ! k)\<lparr>faceUp := False\<rparr>])"

text \<open>
  The callback that puts the removed runs back, the same text in both branches of \<open>undo\<close>.
\<close>

definition restorePile :: "CompletedInfo list \<Rightarrow> Pile \<times> nat \<Rightarrow> Pile" where
  "restorePile infos = (\<lambda>(pile, idx).
     case find (\<lambda>cs. ci_pileIndex cs = idx) infos of
       None \<Rightarrow> pile
     | Some restored \<Rightarrow>
         (let cs = cards pile @ ci_cards restored
          in \<lparr>cards = (case ci_flippedCard restored of
                          None \<Rightarrow> cs
                        | Some i \<Rightarrow> flipBack i cs)\<rparr>))"

text \<open>
  The first part of both branches: the completed sequences and the tableau with the removed
  runs restored. \<open>xs.slice(0, -k)\<close> for \<open>k > 0\<close> keeps the first \<open>length xs - k\<close> elements.
\<close>

definition restoreSequences :: "GameState \<Rightarrow> MoveHistory \<Rightarrow> CompletedSequence list \<times> Pile list" where
  "restoreSequences st lastMove =
     (case h_completedSequences lastMove of
        Some infos \<Rightarrow>
          if length infos > 0
          then (take (length (completedSequences st) - length infos) (completedSequences st),
                map (restorePile infos) (zip (tableau st) [0..<length (tableau st)]))
          else (completedSequences st, tableau st)
      | None \<Rightarrow> (completedSequences st, tableau st))"

text \<open>
  The loop that takes the moved cards out of the target pile: the pair is
  \<open>(cardsToMoveBack, remainingTargetCards)\<close>.
\<close>

fun extractMoved :: "CardId list \<Rightarrow> nat \<Rightarrow> Card list \<Rightarrow> Card list \<times> Card list \<Rightarrow> Card list \<times> Card list" where
  "extractMoved movedCardIds n [] acc = acc"
| "extractMoved movedCardIds n (c # cs) (back, remaining) =
     (if cid c \<in> set movedCardIds \<and> length back < n
      then extractMoved movedCardIds n cs (back @ [c], remaining)
      else extractMoved movedCardIds n cs (back, remaining @ [c]))"

text \<open>
  The callback of the last \<open>newTableau.map\<close> of \<open>undo\<close>: the target pile keeps the
  remaining cards, the source pile gets the moved cards back and the card that the move
  had flipped is turned face down again.
\<close>

definition putBack :: "MoveHistory \<Rightarrow> Card list \<Rightarrow> Card list \<Rightarrow> Pile \<times> nat \<Rightarrow> Pile" where
  "putBack lastMove cardsToMoveBack remainingTargetCards = (\<lambda>(pile, idx).
     if int idx = h_to lastMove then \<lparr>cards = remainingTargetCards\<rparr>
     else if int idx = h_from lastMove then
       (let cs = cards pile @ cardsToMoveBack
        in \<lparr>cards =
             (case h_flippedCard lastMove of
                None \<Rightarrow> cs
              | Some fc \<Rightarrow>
                  if fc_pileIndex fc = int idx
                  then flipBack (fc_cardId fc) cs else cs)\<rparr>)
     else pile)"

text \<open>
  \<open>undo\<close> pops the history first. In the branch of a card move \<open>newTableau[lastMove.to]\<close> is
  \<open>undefined\<close> when \<open>lastMove.to\<close> is no index of the tableau, and reading its cards throws.
\<close>

definition undo :: "Game \<Rightarrow> fault + Game" where
  "undo g =
     (if length (history g) = 0 then Inr g
      else
        let lastMove = last (history g);
            popped = butlast (history g);
            st = state g;
            (newCompletedSequences, restoredTableau) = restoreSequences st lastMove
        in case (h_type lastMove, h_dealtCards lastMove) of
             (Some DealT, Some dealtCards) \<Rightarrow>
               Inr (clearSelection
                 (g\<lparr>history := popped,
                    state := st\<lparr>tableau := map (\<lambda>pile. \<lparr>cards = butlast (cards pile)\<rparr>) restoredTableau,
                                stock := concat dealtCards @ stock st,
                                completedSequences := newCompletedSequences,
                                gameWon := (length newCompletedSequences = 8),
                                moves := moves st - 1\<rparr>\<rparr>))
           | _ \<Rightarrow>
               if h_to lastMove < 0 \<or> h_to lastMove \<ge> int (length restoredTableau)
               then Inl TypeError
               else
                 let movedCardIds = map cid (h_cards lastMove);
                     targetPile = restoredTableau ! nat (h_to lastMove);
                     (cardsToMoveBack, remainingTargetCards) =
                       extractMoved movedCardIds (length (h_cards lastMove)) (cards targetPile) ([], []);
                     newTableau =
                       map (putBack lastMove cardsToMoveBack remainingTargetCards)
                         (zip restoredTableau [0..<length restoredTableau])
                 in Inr (clearSelection
                      (g\<lparr>history := popped,
                         state := st\<lparr>tableau := newTableau,
                                     completedSequences := newCompletedSequences,
                                     gameWon := (length newCompletedSequences = 8),
                                     moves := moves st - 1\<rparr>\<rparr>)))"

subsection \<open>showHint and clearHint\<close>

text \<open>The timer set by \<open>showHint\<close> later runs \<open>this.hint = null\<close>, which is \<open>clearHint\<close>.\<close>

definition showHint :: "Game \<Rightarrow> Game" where
  "showHint g =
     (let ms = findMeaningfulMoves (state g)
      in if length ms = 0 then
           (if canDeal g
            then g\<lparr>hint := Some \<lparr>sourcePile = -1, cardIndex = -1, targetPile = -1,
                                 priority = 100, reason = ''Deal new cards from stock''\<rparr>\<rparr>
            else g\<lparr>hint := None\<rparr>)
         else g\<lparr>hint := Some (ms ! 0)\<rparr>)"

definition clearHint :: "Game \<Rightarrow> Game" where
  "clearHint g = g\<lparr>hint := None\<rparr>"

section \<open>Reachable stores\<close>

text \<open>
  The stores a caller can bring about: the constructor, then any public method that returns.
  Clock values, the id counter and the random source are arbitrary. A method that throws
  leaves no new store behind: \<open>selectCards\<close> and \<open>moveCards\<close> throw before they assign
  anything, and \<open>undo\<close>, which pops the history before it can throw, does not throw on a
  reachable store (lemmas \<open>reachable_played\<close> and \<open>played_undo\<close>).
\<close>

inductive reachable :: "Game \<Rightarrow> bool" where
  r_new: "reachable (newStore ts gid rnd now ts' gid' rnd')"
| r_newGame: "reachable g \<Longrightarrow> reachable (newGame g diffOpt ts gid rnd now)"
| r_restartGame: "reachable g \<Longrightarrow> reachable (restartGame g now)"
| r_selectCards: "reachable g \<Longrightarrow> selectCards clock g pileIndex cardIdx skip = Inr g' \<Longrightarrow> reachable g'"
| r_moveCards: "reachable g \<Longrightarrow> moveCards clock g targetPileIndex = Inr g' \<Longrightarrow> reachable g'"
| r_deal: "reachable g \<Longrightarrow> deal clock g = Inr g' \<Longrightarrow> reachable g'"
| r_undo: "reachable g \<Longrightarrow> undo g = Inr g' \<Longrightarrow> reachable g'"
| r_showHint: "reachable g \<Longrightarrow> reachable (showHint g)"
| r_clearHint: "reachable g \<Longrightarrow> reachable (clearHint g)"

section \<open>Notions of the specification\<close>

text \<open>
  A complete run at index \<open>i\<close>: thirteen consecutive cards, all face up, all of the suit of
  the first, whose ranks read King down to Ace from the bottom of the window to its top.
\<close>

definition completeRun :: "Card list \<Rightarrow> nat \<Rightarrow> bool" where
  "completeRun cs i =
     (i + 13 \<le> length cs \<and>
      map faceUp (take 13 (drop i cs)) = replicate 13 True \<and>
      map suit (take 13 (drop i cs)) = replicate 13 (suit (cs ! i)) \<and>
      map rank (take 13 (drop i cs)) = [RK, RQ, RJ, R10, R9, R8, R7, R6, R5, R4, R3, R2, RA])"

text \<open>A rank-descending-by-one chain, read from the bottom of the run to its top.\<close>

definition descendingByOne :: "Card list \<Rightarrow> bool" where
  "descendingByOne cs =
     (\<forall>k. Suc k < length cs \<longrightarrow>
          rankValues (rank (cs ! k)) = rankValues (rank (cs ! Suc k)) + 1)"

text \<open>The number of cards of a suit in a list of cards.\<close>

definition cardsOfSuit :: "Card list \<Rightarrow> Suit \<Rightarrow> nat" where
  "cardsOfSuit cs su = length (filter (\<lambda>c. suit c = su) cs)"

subsection \<open>The scoring table of the hint advisor\<close>

text \<open>
  A candidate move: a face-up card \<open>cardIdx\<close> of pile \<open>sp\<close> whose movable run is not empty,
  and another pile \<open>tp\<close> on which the first card of the run can be placed.
\<close>

definition candidate :: "GameState \<Rightarrow> nat \<Rightarrow> nat \<Rightarrow> nat \<Rightarrow> bool" where
  "candidate s sp cardIdx tp =
     (faceUp (cards (tableau s ! sp) ! cardIdx) \<and>
      getMovableCards (tableau s ! sp) (int cardIdx) \<noteq> [] \<and>
      tp \<noteq> sp \<and>
      canPlaceCard (hd (getMovableCards (tableau s ! sp) (int cardIdx))) (topCard (tableau s ! tp)))"

text \<open>The move turns a face-down card up: the card below the run is face down.\<close>

definition flipsCard :: "GameState \<Rightarrow> nat \<Rightarrow> nat \<Rightarrow> bool" where
  "flipsCard s sp cardIdx = (cardIdx > 0 \<and> \<not> faceUp (cards (tableau s ! sp) ! (cardIdx - 1)))"

text \<open>
  The run was the tail of a longer same-suit run at the source: the card below it is face
  up, of the suit of the first card of the run, and one rank higher.
\<close>

definition tailOfLonger :: "GameState \<Rightarrow> nat \<Rightarrow> nat \<Rightarrow> bool" where
  "tailOfLonger s sp cardIdx =
     (cardIdx > 0 \<and>
      faceUp (cards (tableau s ! sp) ! (cardIdx - 1)) \<and>
      suit (cards (tableau s ! sp) ! (cardIdx - 1)) = suit (cards (tableau s ! sp) ! cardIdx) \<and>
      rankValues (rank (cards (tableau s ! sp) ! (cardIdx - 1))) =
        rankValues (rank (cards (tableau s ! sp) ! cardIdx)) + 1)"

text \<open>
  The specification's third category: the move strictly increases the length of the
  same-suit descending run at the top of the destination, the length being counted by
  walking backward from the top of the destination while suit and rank descent hold.
\<close>

definition growsRun :: "GameState \<Rightarrow> nat \<Rightarrow> nat \<Rightarrow> nat \<Rightarrow> bool" where
  "growsRun s sp cardIdx tp =
     (getSequenceLengthFromEnd
        \<lparr>cards = cards (tableau s ! tp) @ getMovableCards (tableau s ! sp) (int cardIdx)\<rparr>
      > getSequenceLengthFromEnd (tableau s ! tp))"

text \<open>
  The scoring table with a parameter for the third category: \<open>improves\<close> says when a
  same-suit move onto a non-empty pile that flips no card counts as building a longer run.
\<close>

definition tablePriority ::
  "(GameState \<Rightarrow> nat \<Rightarrow> nat \<Rightarrow> nat \<Rightarrow> bool) \<Rightarrow> GameState \<Rightarrow> nat \<Rightarrow> nat \<Rightarrow> nat \<Rightarrow> int option" where
  "tablePriority improves s sp cardIdx tp =
     (if \<not> candidate s sp cardIdx tp then None
      else case topCard (tableau s ! tp) of
        None \<Rightarrow> Some (if flipsCard s sp cardIdx then 80 else 50)
      | Some tc \<Rightarrow>
          if flipsCard s sp cardIdx
          then Some (if suit (cards (tableau s ! sp) ! cardIdx) = suit tc then 100 else 70)
          else if suit (cards (tableau s ! sp) ! cardIdx) = suit tc \<and>
                  improves s sp cardIdx tp \<and> \<not> tailOfLonger s sp cardIdx
               then Some 60 else None)"

text \<open>The table as the specification words it.\<close>

definition specPriority :: "GameState \<Rightarrow> nat \<Rightarrow> nat \<Rightarrow> nat \<Rightarrow> int option" where
  "specPriority = tablePriority growsRun"

text \<open>
  The table as the code has it: the run at the destination after the move is taken to be
  the destination's run plus the whole moved run, and the move is kept when that is longer
  than the moved run, which is when the top card of the destination is face up.
\<close>

definition codePriority :: "GameState \<Rightarrow> nat \<Rightarrow> nat \<Rightarrow> nat \<Rightarrow> int option" where
  "codePriority = tablePriority (\<lambda>s sp cardIdx tp. faceUp (last (cards (tableau s ! tp))))"

text \<open>
  All moves that a table gives a priority, as (source pile, card index, target pile,
  priority), in the order of discovery: by source pile, then card index, then target pile.
\<close>

definition scoredMoves ::
  "(GameState \<Rightarrow> nat \<Rightarrow> nat \<Rightarrow> nat \<Rightarrow> int option) \<Rightarrow> GameState \<Rightarrow> (int \<times> int \<times> int \<times> int) list" where
  "scoredMoves table s =
     concat (map (\<lambda>sp.
       concat (map (\<lambda>cardIdx.
         concat (map (\<lambda>tp.
           case table s sp cardIdx tp of
             None \<Rightarrow> []
           | Some p \<Rightarrow> [(int sp, int cardIdx, int tp, p)])
           [0..<length (tableau s)]))
         [0..<length (cards (tableau s ! sp))]))
       [0..<length (tableau s)])"

definition moveKey :: "MeaningfulMove \<Rightarrow> int \<times> int \<times> int \<times> int" where
  "moveKey m = (sourcePile m, cardIndex m, targetPile m, priority m)"

subsection \<open>Well-formed states and stores\<close>

text \<open>All cards of a state: the piles from first to last, then the stock.\<close>

definition allCards :: "GameState \<Rightarrow> Card list" where
  "allCards s = concat (map cards (tableau s)) @ stock s"

text \<open>The counter component of a card id.\<close>

fun counterOf :: "CardId \<Rightarrow> nat" where
  "counterOf (CardId ts su r n) = n"

text \<open>The ids of a list of cards, as a multiset.\<close>

definition cardIds :: "Card list \<Rightarrow> CardId multiset" where
  "cardIds cs = mset (map cid cs)"

text \<open>
  A pile in which no face-down card lies above a face-up one, and in which a complete run,
  if there is one, ends at the top of the pile.
\<close>

definition pileDealt :: "Pile \<Rightarrow> bool" where
  "pileDealt p =
     (sorted (map faceUp (cards p)) \<and>
      (\<forall>k. completeRun (cards p) k \<longrightarrow> k + 13 = length (cards p)))"

text \<open>The same without any complete run.\<close>

definition pileSettled :: "Pile \<Rightarrow> bool" where
  "pileSettled p = (sorted (map faceUp (cards p)) \<and> (\<forall>k. \<not> completeRun (cards p) k))"

text \<open>
  A state between operations, \<open>stateInv pileSettled\<close>, and a state after cards have been
  moved or dealt and before completed runs are removed, \<open>stateInv pileDealt\<close>: ten piles,
  card ids all different, \<open>gameWon\<close> exactly when there are eight completed sequences, and the
  stock a multiple of ten.
\<close>

definition stateInv :: "(Pile \<Rightarrow> bool) \<Rightarrow> GameState \<Rightarrow> bool" where
  "stateInv pileOK s =
     (length (tableau s) = 10 \<and>
      distinct (map cid (allCards s)) \<and>
      (\<forall>p\<in>set (tableau s). pileOK p) \<and>
      gameWon s = (length (completedSequences s) = 8) \<and>
      length (stock s) mod 10 = 0)"

text \<open>A selection is a face-up card of the tableau, or nothing.\<close>

definition selOK :: "GameState \<Rightarrow> nat option \<Rightarrow> nat option \<Rightarrow> bool" where
  "selOK s a b =
     (case (a, b) of
        (None, None) \<Rightarrow> True
      | (Some sp, Some sci) \<Rightarrow>
          sp < length (tableau s) \<and> sci < length (cards (tableau s ! sp)) \<and>
          faceUp (cards (tableau s ! sp) ! sci)
      | _ \<Rightarrow> False)"

text \<open>
  A move that \<open>moveCards\<close> carries out: a run is selected, the destination is another pile,
  the run is not empty and its first card can be placed on the destination.
\<close>

definition legalMove :: "Game \<Rightarrow> nat \<Rightarrow> bool" where
  "legalMove g t =
     (case (selectedPile g, selectedCardIndex g) of
        (Some sp, Some sci) \<Rightarrow>
          sp \<noteq> t \<and> sp < length (tableau (state g)) \<and> t < length (tableau (state g)) \<and>
          getMovableCards (tableau (state g) ! sp) (int sci) \<noteq> [] \<and>
          canPlaceCard (hd (getMovableCards (tableau (state g) ! sp) (int sci)))
            (topCard (tableau (state g) ! t))
      | _ \<Rightarrow> False)"

text \<open>
  The stores built from a well-formed state by legal moves and deals, with any valid
  selection and any hint. Every reachable store is one of them (lemma \<open>reachable_played\<close>):
  \<open>undo\<close> only leads back to an earlier one.
\<close>

inductive played :: "Game \<Rightarrow> bool" where
  p_base: "stateInv pileSettled s \<Longrightarrow> stateInv pileSettled i \<Longrightarrow>
     played \<lparr>state = s, history = [], selectedPile = None, selectedCardIndex = None,
             gameKey = k, initialState = i, hint = h\<rparr>"
| p_select: "played g \<Longrightarrow> selOK (state g) a b \<Longrightarrow>
     played (g\<lparr>selectedPile := a, selectedCardIndex := b\<rparr>)"
| p_hint: "played g \<Longrightarrow> played (g\<lparr>hint := h\<rparr>)"
| p_move: "played g \<Longrightarrow> legalMove g t \<Longrightarrow> moveCards clock g t = Inr g' \<Longrightarrow> played g'"
| p_deal: "played g \<Longrightarrow> canDeal g \<Longrightarrow> deal clock g = Inr g' \<Longrightarrow> played g'"

text \<open>
  The store in the middle of a legal move and of a legal deal: the cards are moved or
  dealt, the record is pushed and the selection is cleared; completed runs are not yet
  looked for. Both operations end with \<open>checkCompletedSequences\<close> on this store (lemmas
  \<open>moveCards_legal\<close> and \<open>deal_legal\<close>).
\<close>

definition afterMove :: "Game \<Rightarrow> nat \<Rightarrow> nat \<Rightarrow> nat \<Rightarrow> Game" where
  "afterMove g sp sci t =
     (let S = cards (tableau (state g) ! sp);
          D = cards (tableau (state g) ! t);
          run = getMovableCards (tableau (state g) ! sp) (int sci)
      in clearSelection
           (g\<lparr>state := (state g)\<lparr>
                 tableau := (tableau (state g))[sp := \<lparr>cards = fst (flipTop (take sci S))\<rparr>,
                                               t := \<lparr>cards = D @ run\<rparr>],
                 moves := moves (state g) + 1\<rparr>,
              history := history g @
                [\<lparr>h_type = None, h_from = int sp, h_to = int t, h_cards = run,
                  h_flippedCard =
                    (case snd (flipTop (take sci S)) of None \<Rightarrow> None
                     | Some i \<Rightarrow> Some \<lparr>fc_pileIndex = int sp, fc_cardId = i\<rparr>),
                  h_dealtCards = None, h_completedSequences = None\<rparr>]\<rparr>))"

definition afterDeal :: "Game \<Rightarrow> Game" where
  "afterDeal g =
     clearSelection
       (g\<lparr>state := (state g)\<lparr>
             tableau := map (\<lambda>(pile, index).
                               \<lparr>cards = cards pile @ [(stock (state g) ! index)\<lparr>faceUp := True\<rparr>]\<rparr>)
                          (zip (tableau (state g)) [0..<length (tableau (state g))]),
             stock := drop 10 (stock (state g)),
             moves := moves (state g) + 1\<rparr>,
          history := history g @
            [\<lparr>h_type = Some DealT, h_from = -1, h_to = -1, h_cards = [],
              h_flippedCard = None,
              h_dealtCards = Some (map (\<lambda>i. [stock (state g) ! i]) [0..<10]),
              h_completedSequences = None\<rparr>]\<rparr>)"

section \<open>Example values\<close>

definition mkCard :: "nat \<Rightarrow> Suit \<Rightarrow> Rank \<Rightarrow> bool \<Rightarrow> Card" where
  "mkCard n su r up = \<lparr>cid = CardId 0 su r n, suit = su, rank = r, faceUp = up\<rparr>"

text \<open>A pile of two complete runs of spades, one on top of the other.\<close>

definition twoRuns :: Pile where
  "twoRuns = \<lparr>cards = map (\<lambda>(n, r). mkCard n Spades r True) (zip [0..<26] (rev ranks @ rev ranks))\<rparr>"

text \<open>King of spades, queen of hearts, jack of spades, all face up; and the same with the
  king face down.\<close>

definition mixedRun :: Pile where
  "mixedRun = \<lparr>cards = [mkCard 0 Spades RK True, mkCard 1 Hearts RQ True, mkCard 2 Spades RJ True]\<rparr>"

definition hiddenKing :: Pile where
  "hiddenKing = \<lparr>cards = [mkCard 0 Spades RK False, mkCard 1 Hearts RQ True, mkCard 2 Spades RJ True]\<rparr>"

text \<open>Ten piles of one face-up card each and a stock of ten cards.\<close>

definition tenPiles :: GameState where
  "tenPiles =
     \<lparr>tableau = map (\<lambda>n. \<lparr>cards = [mkCard n Spades RK True]\<rparr>) [0..<10],
      stock = map (\<lambda>n. mkCard (10 + n) Spades RQ False) [0..<10],
      completedSequences = [], moves = 0, gameWon = False, difficulty = Easy\<rparr>"

text \<open>The same with the first pile empty, and with an empty stock.\<close>

definition emptyPileState :: GameState where
  "emptyPileState = tenPiles\<lparr>tableau := (tableau tenPiles)[0 := \<lparr>cards = []\<rparr>]\<rparr>"

definition noStockState :: GameState where
  "noStockState = tenPiles\<lparr>stock := []\<rparr>"

text \<open>A store around a state: no history, nothing selected, no hint.\<close>

definition storeOf :: "GameState \<Rightarrow> Game" where
  "storeOf s = \<lparr>state = s, history = [], selectedPile = None, selectedCardIndex = None,
                gameKey = 0, initialState = s, hint = None\<rparr>"

text \<open>The king of the first pile is selected.\<close>

definition kingSelected :: Game where
  "kingSelected = (storeOf tenPiles)\<lparr>selectedPile := Some 0, selectedCardIndex := Some 0\<rparr>"

text \<open>
  A tableau of a hard game: nine of diamonds, five of spades, four of hearts on the first
  pile, seven and six of spades on the second, a king of clubs on each of the others, all
  face up.
\<close>

definition mixedState :: GameState where
  "mixedState =
     \<lparr>tableau =
        [\<lparr>cards = [mkCard 0 Diamonds R9 True, mkCard 1 Spades R5 True, mkCard 2 Hearts R4 True]\<rparr>,
         \<lparr>cards = [mkCard 3 Spades R7 True, mkCard 4 Spades R6 True]\<rparr>] @
        map (\<lambda>n. \<lparr>cards = [mkCard n Clubs RK True]\<rparr>) [5..<13],
      stock = [], completedSequences = [], moves = 0, gameWon = False, difficulty = Hard\<rparr>"

text \<open>The same tableau with the four of spades in the place of the four of hearts.\<close>

definition spadeState :: GameState where
  "spadeState =
     mixedState\<lparr>tableau := (tableau mixedState)
       [0 := \<lparr>cards = [mkCard 0 Diamonds R9 True, mkCard 1 Spades R5 True, mkCard 2 Spades R4 True]\<rparr>]\<rparr>"

text \<open>
  A new store of an easy game in which the random source leaves the deck in the order of
  \<open>createDeck\<close>; the same with the five of spades on top of the third pile selected.
\<close>

definition firstStore :: Game where
  "firstStore = newStore 0 0 (\<lambda>i. i) 0 0 104 (\<lambda>i. i)"

definition fiveSelected :: Game where
  "fiveSelected = firstStore\<lparr>selectedPile := Some 2, selectedCardIndex := Some 5\<rparr>"

section \<open>Deck, shuffle and layout\<close>


lemma length_swap [simp]: "length (swap i j xs) = length xs"
  by (simp add: swap_def)

lemma mset_swap_deck: "i < length xs \<Longrightarrow> j < length xs \<Longrightarrow> mset (swap i j xs) = mset xs"
  unfolding swap_def by (metis mset_swap)

lemma length_shuffleLoop [simp]: "length (shuffleLoop rnd i xs) = length xs"
  by (induction i arbitrary: xs) simp_all

lemma mset_shuffleLoop: "i < length xs \<Longrightarrow> mset (shuffleLoop rnd i xs) = mset xs"
proof (induction i arbitrary: xs)
  case 0
  then show ?case by simp
next
  case (Suc i)
  have j: "rnd (Suc i) mod (Suc i + 1) < length xs"
    using Suc.prems by (metis Suc_eq_plus1 less_Suc_eq_le mod_less_divisor order_less_le_trans zero_less_Suc not_less_eq)
  have "mset (swap (Suc i) (rnd (Suc i) mod (Suc i + 1)) xs) = mset xs"
    using Suc.prems j by (rule mset_swap_deck)
  moreover have "i < length (swap (Suc i) (rnd (Suc i) mod (Suc i + 1)) xs)"
    using Suc.prems by simp
  ultimately show ?case using Suc.IH by simp
qed

lemma length_shuffleDeck [simp]: "length (shuffleDeck rnd deck) = length deck"
  by (simp add: shuffleDeck_def)

lemma mset_shuffleDeck [simp]: "mset (shuffleDeck rnd deck) = mset deck"
proof (cases deck)
  case Nil
  then show ?thesis by (simp add: shuffleDeck_def)
next
  case (Cons a list)
  then show ?thesis by (simp add: shuffleDeck_def mset_shuffleLoop)
qed

lemma set_shuffleDeck [simp]: "set (shuffleDeck rnd deck) = set deck"
  by (metis mset_shuffleDeck set_mset_mset)



lemma length_dealRows [simp]: "length (dealRows deck ci n k) = k"
  by (induction k arbitrary: ci) simp_all

lemma dealRows_content:
  "ci + k \<le> length deck \<Longrightarrow>
   map (\<lambda>c. c\<lparr>faceUp := False\<rparr>) (dealRows deck ci n k) =
   map (\<lambda>c. c\<lparr>faceUp := False\<rparr>) (take k (drop ci deck))"
proof (induction k arbitrary: ci)
  case 0
  then show ?case by simp
next
  case (Suc k)
  then have lt: "ci < length deck" and le: "Suc ci + k \<le> length deck" by simp_all
  have "take (Suc k) (drop ci deck) = deck ! ci # take k (drop (Suc ci) deck)"
    using lt by (metis Cons_nth_drop_Suc take_Suc_Cons)
  then show ?case using Suc.IH [OF le] by simp
qed

lemma dealCols_index: "ci \<le> snd (dealCols deck ci col m)"
proof (induction m arbitrary: ci col)
  case 0
  then show ?case by simp
next
  case (Suc m)
  have "ci + numCards col \<le> snd (dealCols deck (ci + numCards col) (Suc col) m)"
    by (rule Suc.IH)
  then show ?case by (simp add: Let_def split_beta)
qed

lemma dealCols_content:
  "snd (dealCols deck ci col m) \<le> length deck \<Longrightarrow>
   map (\<lambda>c. c\<lparr>faceUp := False\<rparr>) (concat (map cards (fst (dealCols deck ci col m)))) =
   map (\<lambda>c. c\<lparr>faceUp := False\<rparr>) (take (snd (dealCols deck ci col m) - ci) (drop ci deck))"
proof (induction m arbitrary: ci col)
  case 0
  then show ?case by simp
next
  case (Suc m)
  define n where "n = numCards col"
  define e where "e = snd (dealCols deck (ci + n) (Suc col) m)"
  have e: "snd (dealCols deck ci col (Suc m)) = e"
    by (simp add: e_def n_def Let_def split_beta)
  have ge: "ci + n \<le> e" unfolding e_def by (rule dealCols_index)
  have le: "e \<le> length deck" using Suc.prems e by simp
  have rows: "map (\<lambda>c. c\<lparr>faceUp := False\<rparr>) (dealRows deck ci n n) =
      map (\<lambda>c. c\<lparr>faceUp := False\<rparr>) (take n (drop ci deck))"
    using ge le by (intro dealRows_content) simp
  have rest: "map (\<lambda>c. c\<lparr>faceUp := False\<rparr>) (concat (map cards (fst (dealCols deck (ci + n) (Suc col) m)))) =
      map (\<lambda>c. c\<lparr>faceUp := False\<rparr>) (take (e - (ci + n)) (drop (ci + n) deck))"
    using Suc.IH [of "ci + n" "Suc col"] le by (simp add: e_def)
  have split: "take (e - ci) (drop ci deck) = take n (drop ci deck) @ take (e - (ci + n)) (drop (ci + n) deck)"
  proof -
    have "e - ci = n + (e - (ci + n))" using ge by simp
    then show ?thesis by (metis take_add drop_drop add.commute)
  qed
  have "fst (dealCols deck ci col (Suc m)) =
      \<lparr>cards = dealRows deck ci n n\<rparr> # fst (dealCols deck (ci + n) (Suc col) m)"
    by (simp add: n_def Let_def split_beta)
  then show ?case using rows rest split e by simp
qed


lemma snd_dealCols_10: "snd (dealCols deck 0 0 10) = 54"
  by (simp add: numeral_eq_Suc numCards_def)

lemma layout_lengths: "map (\<lambda>p. length (cards p)) (tableau (layout d deck)) = [6, 6, 6, 6, 5, 5, 5, 5, 5, 5]"
  by (simp add: layout_def numeral_eq_Suc numCards_def split_beta)

lemma layout_faces: "map (\<lambda>p. map faceUp (cards p)) (tableau (layout d deck)) =
   [[False, False, False, False, False, True], [False, False, False, False, False, True],
    [False, False, False, False, False, True], [False, False, False, False, False, True],
    [False, False, False, False, True], [False, False, False, False, True], [False, False, False, False, True],
    [False, False, False, False, True], [False, False, False, False, True], [False, False, False, False, True]]"
  by (simp add: layout_def numeral_eq_Suc numCards_def split_beta)

lemma layout_stock: "stock (layout d deck) = drop 54 deck"
  using snd_dealCols_10 [of deck] by (simp add: layout_def split_beta)

lemma layout_rest: "completedSequences (layout d deck) = [] \<and> moves (layout d deck) = 0 \<and> \<not> gameWon (layout d deck) \<and> difficulty (layout d deck) = d"
  by (simp add: layout_def split_beta)

lemma layout_content:
  assumes "54 \<le> length deck"
  shows "map (\<lambda>c. c\<lparr>faceUp := False\<rparr>) (concat (map cards (tableau (layout d deck)))) =
   map (\<lambda>c. c\<lparr>faceUp := False\<rparr>) (take 54 deck)"
proof -
  have "tableau (layout d deck) = fst (dealCols deck 0 0 10)"
    by (simp add: layout_def split_beta)
  then show ?thesis
    using dealCols_content [of deck 0 0 10] assms snd_dealCols_10 [of deck] by simp
qed


section \<open>Completed runs and movable runs\<close>


lemma upt13: "[0..<13] = [0, 1, 2, 3, 4, 5, 6, 7, 8, 9, 10, 11, 12::nat]"
  by (simp add: upt_rec)

lemma list13:
  assumes "length xs = 13"
  obtains x0 x1 x2 x3 x4 x5 x6 x7 x8 x9 x10 x11 x12
  where "xs = [x0, x1, x2, x3, x4, x5, x6, x7, x8, x9, x10, x11, x12]"
proof -
  have "xs = map (\<lambda>j. xs ! j) [0..<13]"
    using assms by (metis map_nth)
  then have "xs = [xs ! 0, xs ! 1, xs ! 2, xs ! 3, xs ! 4, xs ! 5, xs ! 6, xs ! 7, xs ! 8, xs ! 9,
      xs ! 10, xs ! 11, xs ! 12]"
    unfolding upt13 by (simp del: One_nat_def)
  then show ?thesis using that by blast
qed

lemma windowValid_iff:
  assumes "i + 13 \<le> length cs"
  shows "windowValid cs i = completeRun cs i"
proof -
  define sq where "sq = take 13 (drop i cs)"
  have len: "length sq = 13" using assms by (simp add: sq_def)
  have hd: "sq ! 0 = cs ! i" using assms by (simp add: sq_def)
  from len obtain x0 x1 x2 x3 x4 x5 x6 x7 x8 x9 x10 x11 x12
    where sq: "sq = [x0, x1, x2, x3, x4, x5, x6, x7, x8, x9, x10, x11, x12]"
    by (rule list13)
  have "windowValid cs i =
     (list_all faceUp sq \<and>
      list_all (\<lambda>j. \<not> (suit (sq ! j) \<noteq> suit (sq ! 0) \<or> rank (sq ! j) \<noteq> ranks ! (12 - j))) [0..<13])"
    unfolding windowValid_def sq_def Let_def ..
  also have "\<dots> = (map faceUp sq = replicate 13 True \<and> map suit sq = replicate 13 (suit (sq ! 0)) \<and>
      map rank sq = [RK, RQ, RJ, R10, R9, R8, R7, R6, R5, R4, R3, R2, RA])"
    unfolding upt13 sq by (simp add: ranks_def numeral_eq_Suc) blast
  also have "\<dots> = completeRun cs i"
    unfolding completeRun_def hd sq_def using assms by simp
  finally show ?thesis .
qed



lemma scanFrom_not: "\<not> completed (scanFrom cs n) \<Longrightarrow> scanFrom cs n = notCompleted"
  by (induction n) (auto simp: notCompleted_def split: if_splits)

lemma scanFrom_completed_iff: "completed (scanFrom cs n) = (\<exists>i\<le>n. windowValid cs i)"
proof (induction n)
  case 0
  then show ?case by (simp add: notCompleted_def)
next
  case (Suc n)
  show ?case
  proof (cases "windowValid cs (Suc n)")
    case True
    then show ?thesis by auto
  next
    case False
    then have "completed (scanFrom cs (Suc n)) = (\<exists>i\<le>n. windowValid cs i)"
      using Suc.IH by simp
    also have "\<dots> = (\<exists>i\<le>Suc n. windowValid cs i)"
      using False by (metis le_Suc_eq)
    finally show ?thesis .
  qed
qed

lemma scanFrom_found:
  "completed (scanFrom cs n) \<Longrightarrow>
   \<exists>k\<le>n. startIndex (scanFrom cs n) = int k \<and> windowValid cs k \<and>
          res_suit (scanFrom cs n) = Some (suit (cs ! k)) \<and>
          (\<forall>i\<le>n. windowValid cs i \<longrightarrow> i \<le> k)"
proof (induction n)
  case 0
  then show ?case by (auto simp: notCompleted_def split: if_splits)
next
  case (Suc n)
  show ?case
  proof (cases "windowValid cs (Suc n)")
    case True
    then show ?thesis by auto
  next
    case False
    then have eq: "scanFrom cs (Suc n) = scanFrom cs n" by simp
    with Suc obtain k where k: "k \<le> n" "startIndex (scanFrom cs n) = int k" "windowValid cs k"
      "res_suit (scanFrom cs n) = Some (suit (cs ! k))" "\<forall>i\<le>n. windowValid cs i \<longrightarrow> i \<le> k"
      by auto
    have "\<forall>i\<le>Suc n. windowValid cs i \<longrightarrow> i \<le> k"
      using k(5) False by (metis le_Suc_eq)
    then show ?thesis using k eq by (intro exI [of _ k]) simp
  qed
qed

lemma completeRun_bound: "completeRun cs i \<Longrightarrow> i + 13 \<le> length cs"
  by (simp add: completeRun_def)

lemma check_completed_iff:
  "completed (checkForCompletedSequence pile) = (\<exists>i. completeRun (cards pile) i)"
proof (cases "length (cards pile) < 13")
  case True
  then show ?thesis by (auto simp: checkForCompletedSequence_def notCompleted_def completeRun_def)
next
  case False
  define n where "n = length (cards pile) - 13"
  have n: "\<And>i. (i \<le> n) = (i + 13 \<le> length (cards pile))" using False by (auto simp: n_def)
  have "completed (checkForCompletedSequence pile) = (\<exists>i\<le>n. windowValid (cards pile) i)"
    using False by (simp add: checkForCompletedSequence_def n_def scanFrom_completed_iff)
  also have "\<dots> = (\<exists>i. completeRun (cards pile) i)"
    using n windowValid_iff completeRun_bound by metis
  finally show ?thesis .
qed

lemma check_found:
  assumes "completed (checkForCompletedSequence pile)"
  shows "\<exists>k. startIndex (checkForCompletedSequence pile) = int k \<and> completeRun (cards pile) k \<and>
          res_suit (checkForCompletedSequence pile) = Some (suit (cards pile ! k)) \<and>
          (\<forall>i. completeRun (cards pile) i \<longrightarrow> i \<le> k)"
proof -
  have ge: "\<not> length (cards pile) < 13"
    using assms by (auto simp: checkForCompletedSequence_def notCompleted_def)
  define n where "n = length (cards pile) - 13"
  have n: "\<And>i. (i \<le> n) = (i + 13 \<le> length (cards pile))" using ge by (auto simp: n_def)
  have eq: "checkForCompletedSequence pile = scanFrom (cards pile) n"
    using ge by (simp add: checkForCompletedSequence_def n_def)
  from assms scanFrom_found [of "cards pile" n] eq
  obtain k where k: "k \<le> n" "startIndex (scanFrom (cards pile) n) = int k" "windowValid (cards pile) k"
      "res_suit (scanFrom (cards pile) n) = Some (suit (cards pile ! k))"
      "\<forall>i\<le>n. windowValid (cards pile) i \<longrightarrow> i \<le> k"
    by auto
  have "completeRun (cards pile) k" using k(1,3) n windowValid_iff by metis
  moreover have "\<forall>i. completeRun (cards pile) i \<longrightarrow> i \<le> k"
    using k(5) n windowValid_iff completeRun_bound by metis
  ultimately show ?thesis using k eq by (intro exI [of _ k]) simp
qed

lemma check_not: "\<not> completed (checkForCompletedSequence pile) \<Longrightarrow> checkForCompletedSequence pile = notCompleted"
  by (auto simp: checkForCompletedSequence_def scanFrom_not)

lemma descendingLoop_iff: "descendingLoop cs = descendingByOne cs"
  unfolding descendingByOne_def
proof (induction cs rule: descendingLoop.induct)
  case 1
  then show ?case by simp
next
  case (2 c)
  then show ?case by simp
next
  case (3 c d cs)
  have "(\<forall>k. Suc k < length (c # d # cs) \<longrightarrow>
           rankValues (rank ((c # d # cs) ! k)) = rankValues (rank ((c # d # cs) ! Suc k)) + 1) =
        (rankValues (rank c) = rankValues (rank d) + 1 \<and>
         (\<forall>k. Suc k < length (d # cs) \<longrightarrow>
           rankValues (rank ((d # cs) ! k)) = rankValues (rank ((d # cs) ! Suc k)) + 1))"
    (is "?L = ?R")
  proof
    assume l: ?L
    have "rankValues (rank c) = rankValues (rank d) + 1" using l [rule_format, of 0] by simp
    moreover have "\<And>k. Suc k < length (d # cs) \<Longrightarrow>
           rankValues (rank ((d # cs) ! k)) = rankValues (rank ((d # cs) ! Suc k)) + 1"
      using l [rule_format, of "Suc _"] by simp
    ultimately show ?R by blast
  next
    assume r: ?R
    show ?L
    proof (intro allI impI)
      fix k assume "Suc k < length (c # d # cs)"
      then show "rankValues (rank ((c # d # cs) ! k)) = rankValues (rank ((c # d # cs) ! Suc k)) + 1"
        using r by (cases k) auto
    qed
  qed
  then show ?case using 3 by auto
qed

lemma sliceFrom_nat [simp]: "sliceFrom (int n) xs = drop n xs"
  by (simp add: sliceFrom_def Let_def min_def)

lemma faceUp_suffix:
  assumes "sorted (map faceUp cs)" "i < length cs" "faceUp (cs ! i)"
  shows "list_all faceUp (drop i cs)"
proof -
  have "\<And>j. i \<le> j \<Longrightarrow> j < length cs \<Longrightarrow> faceUp (cs ! j)"
  proof -
    fix j assume "i \<le> j" "j < length cs"
    then have "map faceUp cs ! i \<le> map faceUp cs ! j"
      using assms(1) by (simp add: sorted_iff_nth_mono del: nth_map)
    then show "faceUp (cs ! j)" using assms \<open>j < length cs\<close> by simp
  qed
  then show ?thesis by (auto simp: list_all_iff in_set_conv_nth)
qed

section \<open>Claims about the rules engine\<close>

lemma unface_id: "list_all (\<lambda>c. \<not> faceUp c) cs \<Longrightarrow> map (\<lambda>c. c\<lparr>faceUp := False\<rparr>) cs = cs"
  by (induction cs) simp_all

lemma createDeck_length: "length (createDeck d ts g) = 104"
  by (cases d) (simp_all add: createDeck_def ranks_def)

lemma createDeck_faceDown: "list_all (\<lambda>c. \<not> faceUp c) (createDeck d ts g)"
  by (cases d) (simp_all add: createDeck_def ranks_def)

lemma createDeck_ranks:
  "map (\<lambda>k. map rank (take 13 (drop (13 * k) (createDeck d ts g)))) [0..<8] = replicate 8 ranks"
  by (cases d) (simp_all add: createDeck_def ranks_def upt_rec numeral_eq_Suc)

lemma createDeck_suits:
  "map (\<lambda>k. map suit (take 13 (drop (13 * k) (createDeck d ts g)))) [0..<8] =
   map (replicate 13) (suitsToUse d)"
  by (cases d) (simp_all add: createDeck_def ranks_def upt_rec numeral_eq_Suc)

lemma createDeck_counts:
  "map (cardsOfSuit (createDeck d ts g)) allSuits =
   (case d of Easy \<Rightarrow> [104, 0, 0, 0] | Medium \<Rightarrow> [52, 52, 0, 0] | Hard \<Rightarrow> [26, 26, 26, 26])"
  by (cases d) (simp_all add: createDeck_def ranks_def allSuits_def cardsOfSuit_def)

lemma length_shuffled_deck: "length (shuffleDeck rnd (createDeck d ts g)) = 104"
  by (simp add: createDeck_length)

lemma shuffled_faceDown: "list_all (\<lambda>c. \<not> faceUp c) (shuffleDeck rnd (createDeck d ts g))"
  using createDeck_faceDown [of d ts g] by (simp add: list_all_iff)

text \<open>
  C6, as the code has it. For every difficulty \<open>createDeck\<close> yields 104 cards, all face
  down, in 8 sub-decks of 13 cards; each sub-deck has one suit and holds the 13 ranks once
  each, Ace to King. The cards per suit (spades, hearts, diamonds, clubs) are 104/0/0/0 for
  easy, 52/52/0/0 for medium and 26/26/26/26 for hard.
\<close>

theorem createDeck_distribution:
  "length (createDeck d ts g) = 104 \<and>
   list_all (\<lambda>c. \<not> faceUp c) (createDeck d ts g) \<and>
   map (\<lambda>k. map rank (take 13 (drop (13 * k) (createDeck d ts g)))) [0..<8] = replicate 8 ranks \<and>
   distinct ranks \<and> length ranks = 13 \<and>
   map (\<lambda>k. map suit (take 13 (drop (13 * k) (createDeck d ts g)))) [0..<8] =
     map (replicate 13) (suitsToUse d) \<and>
   map (cardsOfSuit (createDeck d ts g)) allSuits =
     (case d of Easy \<Rightarrow> [104, 0, 0, 0] | Medium \<Rightarrow> [52, 52, 0, 0] | Hard \<Rightarrow> [26, 26, 26, 26])"
  using createDeck_length createDeck_faceDown createDeck_ranks createDeck_suits createDeck_counts
  by (simp add: ranks_def)

text \<open>
  C6, as the specification words it, fails for hard: a hard deck has 26 spades, not 8.
\<close>

theorem createDeck_hard_counterexample:
  "cardsOfSuit (createDeck Hard 0 0) Spades = 26 \<and> cardsOfSuit (createDeck Hard 0 0) Spades \<noteq> 8"
  by (simp add: createDeck_def ranks_def cardsOfSuit_def)

text \<open>
  C7. \<open>initializeGame\<close> deals the shuffled deck, in order, into ten piles of 6, 6, 6, 6, 5,
  5, 5, 5, 5, 5 cards (54 in all) and leaves the other 50 cards in the stock; in every pile
  the last card dealt is face up and no other; \<open>moves\<close> is 0, \<open>gameWon\<close> is false and
  \<open>completedSequences\<close> is empty.
\<close>

theorem initializeGame_layout:
  "map (\<lambda>p. length (cards p)) (tableau (initializeGame d ts g rnd)) = [6, 6, 6, 6, 5, 5, 5, 5, 5, 5] \<and>
   length (concat (map cards (tableau (initializeGame d ts g rnd)))) = 54 \<and>
   length (stock (initializeGame d ts g rnd)) = 50 \<and>
   map (\<lambda>p. map faceUp (cards p)) (tableau (initializeGame d ts g rnd)) =
     [[False, False, False, False, False, True], [False, False, False, False, False, True],
      [False, False, False, False, False, True], [False, False, False, False, False, True],
      [False, False, False, False, True], [False, False, False, False, True],
      [False, False, False, False, True], [False, False, False, False, True],
      [False, False, False, False, True], [False, False, False, False, True]] \<and>
   map (\<lambda>c. c\<lparr>faceUp := False\<rparr>) (concat (map cards (tableau (initializeGame d ts g rnd)))) @
     stock (initializeGame d ts g rnd) = shuffleDeck rnd (createDeck d ts g) \<and>
   moves (initializeGame d ts g rnd) = 0 \<and>
   \<not> gameWon (initializeGame d ts g rnd) \<and>
   completedSequences (initializeGame d ts g rnd) = [] \<and>
   difficulty (initializeGame d ts g rnd) = d"
proof -
  define deck where "deck = shuffleDeck rnd (createDeck d ts g)"
  have len: "length deck = 104" by (simp add: deck_def createDeck_length)
  have down: "list_all (\<lambda>c. \<not> faceUp c) deck" unfolding deck_def by (rule shuffled_faceDown)
  have s: "initializeGame d ts g rnd = layout d deck" by (simp add: initializeGame_def deck_def)
  have lens: "map (\<lambda>p. length (cards p)) (tableau (layout d deck)) = [6, 6, 6, 6, 5, 5, 5, 5, 5, 5]"
    by (rule layout_lengths)
  have "length (concat (map cards (tableau (layout d deck)))) =
      sum_list (map (\<lambda>p. length (cards p)) (tableau (layout d deck)))"
    by (simp add: length_concat comp_def)
  then have total: "length (concat (map cards (tableau (layout d deck)))) = 54"
    unfolding lens by simp
  have "list_all (\<lambda>c. \<not> faceUp c) (take 54 deck)"
    using down by (auto simp: list_all_iff dest: in_set_takeD)
  then have "map (\<lambda>c. c\<lparr>faceUp := False\<rparr>) (concat (map cards (tableau (layout d deck)))) = take 54 deck"
    using layout_content [of deck d] len by (simp add: unface_id)
  then have content: "map (\<lambda>c. c\<lparr>faceUp := False\<rparr>) (concat (map cards (tableau (layout d deck)))) @
      stock (layout d deck) = deck"
    by (simp add: layout_stock)
  have st: "length (stock (layout d deck)) = 50" by (simp add: layout_stock len)
  show ?thesis
    unfolding s deck_def [symmetric]
    using lens total st layout_faces [of d deck] content layout_rest [of d deck] by blast
qed

text \<open>
  C3, as the code has it. \<open>checkForCompletedSequence\<close> reports \<open>completed\<close> exactly when the
  pile has a complete run; it then returns the start of one, the suit of that run, and of
  all complete runs the one with the greatest start index, which is the one nearest the
  top of the pile. Without a complete run the start index is \<open>-1\<close>.
\<close>

theorem checkForCompletedSequence_topmost:
  "completed (checkForCompletedSequence pile) = (\<exists>i. completeRun (cards pile) i) \<and>
   (completed (checkForCompletedSequence pile) \<longrightarrow>
      (\<exists>k. startIndex (checkForCompletedSequence pile) = int k \<and> completeRun (cards pile) k \<and>
           res_suit (checkForCompletedSequence pile) = Some (suit (cards pile ! k)) \<and>
           (\<forall>i. completeRun (cards pile) i \<longrightarrow> i \<le> k))) \<and>
   (\<not> completed (checkForCompletedSequence pile) \<longrightarrow>
      startIndex (checkForCompletedSequence pile) = -1)"
  using check_completed_iff [of pile] check_found [of pile] check_not [of pile]
  by (auto simp: notCompleted_def)

lemma twoRuns_runs: "completeRun (cards twoRuns) 0 \<and> completeRun (cards twoRuns) 13"
  by (simp add: twoRuns_def completeRun_def ranks_def upt_rec numeral_eq_Suc mkCard_def)

theorem checkForCompletedSequence_topmost_witness:
  "completed (checkForCompletedSequence twoRuns) \<and>
   startIndex (checkForCompletedSequence twoRuns) = 13 \<and>
   res_suit (checkForCompletedSequence twoRuns) = Some Spades"
proof -
  have c: "completed (checkForCompletedSequence twoRuns)"
    using checkForCompletedSequence_topmost [of twoRuns] twoRuns_runs by blast
  then obtain k where k: "startIndex (checkForCompletedSequence twoRuns) = int k"
      "completeRun (cards twoRuns) k"
      "res_suit (checkForCompletedSequence twoRuns) = Some (suit (cards twoRuns ! k))"
      "\<forall>i. completeRun (cards twoRuns) i \<longrightarrow> i \<le> k"
    using checkForCompletedSequence_topmost [of twoRuns] by blast
  have "13 \<le> k" using k(4) twoRuns_runs by blast
  moreover have "k + 13 \<le> 26" using k(2) by (simp add: completeRun_def twoRuns_def ranks_def)
  ultimately have "k = 13" by simp
  moreover have "suit (cards twoRuns ! 13) = Spades"
    by (simp add: twoRuns_def ranks_def upt_rec numeral_eq_Suc mkCard_def)
  ultimately show ?thesis using c k by simp
qed

text \<open>
  C3, as the specification words it, fails: in a pile of two complete runs the run at index
  0 is the bottom-most, and the function returns the one at index 13.
\<close>

theorem checkForCompletedSequence_bottommost_counterexample:
  "completeRun (cards twoRuns) 0 \<and> completed (checkForCompletedSequence twoRuns) \<and>
   startIndex (checkForCompletedSequence twoRuns) \<noteq> 0"
proof -
  have "startIndex (checkForCompletedSequence twoRuns) = 13"
    by (simp add: twoRuns_def checkForCompletedSequence_def windowValid_def ranks_def
        upt_rec numeral_eq_Suc mkCard_def)
  moreover have "completed (checkForCompletedSequence twoRuns)"
    using twoRuns_runs check_completed_iff by blast
  ultimately show ?thesis using twoRuns_runs by simp
qed



section \<open>Claims about rejected operations\<close>

lemma sliceFrom_0 [simp]: "sliceFrom 0 xs = xs"
  using sliceFrom_nat [of 0 xs] by simp

lemma sliceFrom_1 [simp]: "sliceFrom 1 xs = drop 1 xs"
  using sliceFrom_nat [of 1 xs] by simp

lemma sliceFrom_numeral [simp]: "sliceFrom (numeral k) xs = drop (numeral k) xs"
  using sliceFrom_nat [of "numeral k" xs] by simp

lemma dealFromStock_short: "length (stock s) < 10 \<Longrightarrow> dealFromStock s = Inr s"
  by (simp add: dealFromStock_def)

lemma deal_noop: "\<not> canDeal g \<Longrightarrow> deal clock g = Inr g"
  by (simp add: deal_def)

lemma undo_empty: "history g = [] \<Longrightarrow> undo g = Inr g"
  by (simp add: undo_def)

lemma canDeal_iff:
  "canDeal g = (10 \<le> length (stock (state g)) \<and> (\<forall>p\<in>set (tableau (state g)). cards p \<noteq> []))"
  by (auto simp: canDeal_def list_all_iff)

text \<open>
  C2, as the code has it. \<open>dealFromStock\<close> itself is a no-op when the stock has fewer than 10
  cards, and only then. That every pile be non-empty is required by the store: \<open>canDeal\<close>
  holds iff the stock has at least 10 cards and no pile is empty, and \<open>deal\<close> leaves the
  store unchanged when the stock is short or some pile is empty.
\<close>

theorem deal_rejected:
  "(length (stock s) < 10 \<longrightarrow> dealFromStock s = Inr s) \<and>
   canDeal g = (10 \<le> length (stock (state g)) \<and> (\<forall>p\<in>set (tableau (state g)). cards p \<noteq> [])) \<and>
   (length (stock (state g)) < 10 \<or> (\<exists>p\<in>set (tableau (state g)). cards p = []) \<longrightarrow>
      deal clock g = Inr g)"
proof -
  have "length (stock (state g)) < 10 \<or> (\<exists>p\<in>set (tableau (state g)). cards p = []) \<longrightarrow>
      \<not> canDeal g"
    by (auto simp: canDeal_iff)
  then show ?thesis using dealFromStock_short [of s] canDeal_iff [of g] deal_noop [of g clock]
    by blast
qed

theorem deal_rejected_witness:
  "length (stock noStockState) < 10 \<and> dealFromStock noStockState = Inr noStockState \<and>
   \<not> canDeal (storeOf emptyPileState) \<and>
   deal (\<lambda>i. 0) (storeOf emptyPileState) = Inr (storeOf emptyPileState) \<and>
   deal (\<lambda>i. 0) (storeOf noStockState) = Inr (storeOf noStockState)"
proof -
  have a: "length (stock noStockState) < 10" by (simp add: noStockState_def)
  have b: "\<lparr>cards = []\<rparr> \<in> set (tableau (state (storeOf emptyPileState)))"
    by (simp add: storeOf_def emptyPileState_def tenPiles_def upt_rec numeral_eq_Suc)
  then have b': "\<exists>p\<in>set (tableau (state (storeOf emptyPileState))). cards p = []"
    by (intro bexI [of _ "\<lparr>cards = []\<rparr>"]) simp_all
  have c: "length (stock (state (storeOf noStockState))) < 10"
    by (simp add: storeOf_def noStockState_def)
  have "dealFromStock noStockState = Inr noStockState"
    using deal_rejected [of noStockState] a by blast
  moreover have "\<not> canDeal (storeOf emptyPileState)"
    using deal_rejected [of noStockState "storeOf emptyPileState"] b' by blast
  moreover have "deal (\<lambda>i. 0) (storeOf emptyPileState) = Inr (storeOf emptyPileState)"
    using deal_rejected [of noStockState "storeOf emptyPileState" "\<lambda>i. 0"] b' by blast
  moreover have "deal (\<lambda>i. 0) (storeOf noStockState) = Inr (storeOf noStockState)"
    using deal_rejected [of noStockState "storeOf noStockState" "\<lambda>i. 0"] c by blast
  ultimately show ?thesis using a by blast
qed

text \<open>
  C2, as the specification words it, fails: with ten cards in the stock and an empty first
  pile \<open>dealFromStock\<close> is no no-op; it deals.
\<close>

theorem dealFromStock_empty_pile_counterexample:
  "10 \<le> length (stock emptyPileState) \<and> cards (tableau emptyPileState ! 0) = [] \<and>
   dealFromStock emptyPileState \<noteq> Inr emptyPileState \<and>
   (case dealFromStock emptyPileState of
      Inr s' \<Rightarrow> cards (tableau s' ! 0) = [mkCard 10 Spades RQ True] \<and> stock s' = []
    | Inl e \<Rightarrow> False)"
  by (simp add: emptyPileState_def tenPiles_def dealFromStock_def upt_rec numeral_eq_Suc mkCard_def)

lemma moveCards_illegal:
  assumes "selectedPile g = Some sp" "selectedCardIndex g = Some sci"
    and "sp < length (tableau (state g))" "t < length (tableau (state g))"
    and "sp = t \<or> getMovableCards (tableau (state g) ! sp) (int sci) = [] \<or>
      \<not> canPlaceCard (hd (getMovableCards (tableau (state g) ! sp) (int sci)))
          (topCard (tableau (state g) ! t))"
  shows "moveCards clock g t = Inr (clearSelection g)"
  using assms by (auto simp: moveCards_def Let_def)

section \<open>Claims about the hint advisor\<close>

lemma hd_getMovableCards:
  assumes "ci < length (cards p)" and "getMovableCards p (int ci) \<noteq> []"
  shows "hd (getMovableCards p (int ci)) = cards p ! ci"
proof -
  have "getMovableCards p (int ci) = drop ci (cards p)"
    using assms(2) by (simp add: getMovableCards_def Let_def split: if_splits)
  then show ?thesis using assms(1) by (simp add: hd_drop_conv_nth)
qed

lemma getSequenceLengthFromEnd_pos:
  "(0 < getSequenceLengthFromEnd p) = (cards p \<noteq> [] \<and> faceUp (last (cards p)))"
  by (simp add: getSequenceLengthFromEnd_def Let_def)

lemma topCard_Some: "topCard p = Some tc \<Longrightarrow> cards p \<noteq> [] \<and> last (cards p) = tc"
  by (auto simp: topCard_def split: if_splits)

lemma targetBody_key:
  assumes ci: "ci < length (cards (tableau s ! sp))"
    and up: "faceUp (cards (tableau s ! sp) ! ci)"
    and run: "getMovableCards (tableau s ! sp) (int ci) \<noteq> []"
  shows "map moveKey (targetBody s sp ci (getMovableCards (tableau s ! sp) (int ci))
                        (ci > 0 \<and> \<not> faceUp (cards (tableau s ! sp) ! (ci - 1))) tp) =
         (case codePriority s sp ci tp of None \<Rightarrow> [] | Some p \<Rightarrow> [(int sp, int ci, int tp, p)])"
proof -
  note h = hd_getMovableCards [OF ci run]
  show ?thesis
  proof (cases "tp = sp")
    case True
    then show ?thesis
      by (simp add: targetBody_def codePriority_def tablePriority_def candidate_def)
  next
    case ne: False
    show ?thesis
    proof (cases "canPlaceCard (cards (tableau s ! sp) ! ci) (topCard (tableau s ! tp))")
      case False
      then show ?thesis using ne h
        by (simp add: targetBody_def codePriority_def tablePriority_def candidate_def Let_def)
    next
      case place: True
      then have cand: "candidate s sp ci tp"
        using ne up run h by (simp add: candidate_def)
      show ?thesis
      proof (cases "topCard (tableau s ! tp)")
        case None
        then show ?thesis using ne place cand h
          by (simp add: targetBody_def codePriority_def tablePriority_def Let_def moveKey_def
              flipsCard_def)
      next
        case (Some tc)
        note tc = topCard_Some [OF Some]
        have pos: "(length (getMovableCards (tableau s ! sp) (int ci)) <
              getSequenceLengthFromEnd (tableau s ! tp) + length (getMovableCards (tableau s ! sp) (int ci))) =
            faceUp (last (cards (tableau s ! tp)))"
          using getSequenceLengthFromEnd_pos [of "tableau s ! tp"] tc by simp
        show ?thesis using ne place cand h Some pos
          by (auto simp: targetBody_def codePriority_def tablePriority_def Let_def moveKey_def
              flipsCard_def tailOfLonger_def)
      qed
    qed
  qed
qed

lemma codePriority_not_candidate: "\<not> candidate s sp ci tp \<Longrightarrow> codePriority s sp ci tp = None"
  by (simp add: codePriority_def tablePriority_def)

lemma cardBody_key:
  assumes ci: "ci < length (cards (tableau s ! sp))"
  shows "map moveKey (cardBody s sp ci) =
         concat (map (\<lambda>tp. case codePriority s sp ci tp of
                              None \<Rightarrow> [] | Some p \<Rightarrow> [(int sp, int ci, int tp, p)])
                   [0..<length (tableau s)])"
proof (cases "faceUp (cards (tableau s ! sp) ! ci) \<and> getMovableCards (tableau s ! sp) (int ci) \<noteq> []")
  case True
  then show ?thesis
    using targetBody_key [OF ci]
    by (simp add: cardBody_def Let_def map_concat comp_def)
next
  case False
  then have "\<And>tp. codePriority s sp ci tp = None"
    by (intro codePriority_not_candidate) (auto simp: candidate_def)
  then have "concat (map (\<lambda>tp. case codePriority s sp ci tp of
                              None \<Rightarrow> [] | Some p \<Rightarrow> [(int sp, int ci, int tp, p)])
                   [0..<length (tableau s)]) = []"
    by simp
  then show ?thesis using False by (auto simp: cardBody_def Let_def)
qed

lemma discoveredMoves_key: "map moveKey (discoveredMoves s) = scoredMoves codePriority s"
proof -
  have inner: "\<And>sp. concat (map (\<lambda>ci. map moveKey (cardBody s sp ci)) [0..<length (cards (tableau s ! sp))]) =
      concat (map (\<lambda>ci. concat (map (\<lambda>tp. case codePriority s sp ci tp of
                              None \<Rightarrow> [] | Some p \<Rightarrow> [(int sp, int ci, int tp, p)])
                   [0..<length (tableau s)])) [0..<length (cards (tableau s ! sp))])"
    by (rule arg_cong [where f = concat], rule map_cong) (simp_all add: cardBody_key)
  show ?thesis
    by (simp add: discoveredMoves_def scoredMoves_def map_concat comp_def inner)
qed

lemma map_insort_key: "map f (insort_key (\<lambda>x. k (f x)) x xs) = insort_key k (f x) (map f xs)"
  by (induction xs) simp_all

lemma map_sort_key: "map f (sort_key (\<lambda>x. k (f x)) xs) = sort_key k (map f xs)"
  by (induction xs) (simp_all add: map_insort_key)

lemma findMeaningfulMoves_key:
  "map moveKey (findMeaningfulMoves s) =
   sort_key (\<lambda>(sp, ci, tp, p). - p) (scoredMoves codePriority s)"
proof -
  have "(\<lambda>m. - priority m) = (\<lambda>m. (\<lambda>(sp, ci, tp, p). - p) (moveKey m))"
    by (simp add: moveKey_def)
  then have "map moveKey (findMeaningfulMoves s) =
      sort_key (\<lambda>(sp, ci, tp, p). - p) (map moveKey (discoveredMoves s))"
    unfolding findMeaningfulMoves_def by (simp only: map_sort_key)
  then show ?thesis by (simp only: discoveredMoves_key)
qed

text \<open>
  What \<open>findMeaningfulMoves\<close> computes. The moves returned are those the table
  \<open>codePriority\<close> scores, with that priority, sorted by descending priority, and moves of
  equal priority keep the order of discovery. In its third category the code takes the
  length of the run at the destination after the move to be the length of the run there
  plus the number of cards moved.
\<close>

lemma findMeaningfulMoves_scored:
  "map moveKey (findMeaningfulMoves s) =
     sort_key (\<lambda>(sp, ci, tp, p). - p) (scoredMoves codePriority s) \<and>
   map moveKey (discoveredMoves s) = scoredMoves codePriority s \<and>
   sorted (map (\<lambda>m. - priority m) (findMeaningfulMoves s)) \<and>
   filter (\<lambda>m. priority m = k) (findMeaningfulMoves s) =
     filter (\<lambda>m. priority m = k) (discoveredMoves s)"
proof -
  have "filter (\<lambda>m. - priority m = - k) (sort_key (\<lambda>m. - priority m) (discoveredMoves s)) =
      filter (\<lambda>m. - priority m = - k) (discoveredMoves s)"
    by (rule sort_key_stable)
  then have "filter (\<lambda>m. priority m = k) (findMeaningfulMoves s) =
     filter (\<lambda>m. priority m = k) (discoveredMoves s)"
    by (simp add: findMeaningfulMoves_def)
  moreover have "sorted (map (\<lambda>m. - priority m) (findMeaningfulMoves s))"
    by (simp add: findMeaningfulMoves_def)
  ultimately show ?thesis using findMeaningfulMoves_key discoveredMoves_key by blast
qed

text \<open>
  C9. The scoring table of the claim is \<open>specPriority\<close>: in its third category a move onto a
  top card of the same suit counts when the same-suit descending run at the top of the
  destination is strictly longer after the move than before it. The comments of the source
  state this intent (the combined cards are to form a longer sequence of one suit) and rest
  it on the moved run being such a sequence already, which \<open>getMovableCards\<close> does not
  ensure: it compares ranks only. In \<open>mixedState\<close> the run five of spades, four of hearts
  goes onto the six of spades; the run at the top of that pile has length 2 before the move
  and length 1 after it, the table of the claim gives the move no priority and scores no
  move at all, and the code returns the move with priority 60 and the reason
  \<open>Build longer sequence\<close>. In \<open>spadeState\<close>, where the moved run is five and four of
  spades, the table of the claim and the code agree on priority 60.
\<close>

theorem findMeaningfulMoves_mixed_run:
  "map suit (getMovableCards (tableau mixedState ! 0) 1) = [Spades, Hearts] \<and>
   getSequenceLengthFromEnd (tableau mixedState ! 1) = 2 \<and>
   getSequenceLengthFromEnd
     \<lparr>cards = cards (tableau mixedState ! 1) @ getMovableCards (tableau mixedState ! 0) 1\<rparr> = 1 \<and>
   specPriority mixedState 0 1 1 = None \<and>
   scoredMoves specPriority mixedState = [] \<and>
   map moveKey (findMeaningfulMoves mixedState) = [(0, 1, 1, 60)] \<and>
   map reason (findMeaningfulMoves mixedState) = [''Build longer sequence''] \<and>
   specPriority spadeState 0 1 1 = Some 60 \<and>
   map moveKey (findMeaningfulMoves spadeState) = [(0, 1, 1, 60)]"
proof -
  have m: "map suit (getMovableCards (tableau mixedState ! 0) 1) = [Spades, Hearts]"
    by (simp add: mixedState_def getMovableCards_def mkCard_def)
  have a: "getSequenceLengthFromEnd (tableau mixedState ! 1) = 2"
    by (simp add: mixedState_def getSequenceLengthFromEnd_def mkCard_def)
  have b: "getSequenceLengthFromEnd
     \<lparr>cards = cards (tableau mixedState ! 1) @ getMovableCards (tableau mixedState ! 0) 1\<rparr> = 1"
    by (simp add: mixedState_def getSequenceLengthFromEnd_def getMovableCards_def mkCard_def)
  have fl: "\<not> flipsCard mixedState 0 1"
    by (simp add: flipsCard_def mixedState_def mkCard_def)
  have tc: "topCard (tableau mixedState ! 1) = Some (mkCard 4 Spades R6 True)"
    by (simp add: topCard_def mixedState_def)
  have g: "\<not> growsRun mixedState 0 1 1"
    unfolding growsRun_def using a b by simp
  have c: "specPriority mixedState 0 1 1 = None"
    using fl tc g by (simp add: specPriority_def tablePriority_def)
  have d: "findMeaningfulMoves mixedState =
      [\<lparr>sourcePile = 0, cardIndex = 1, targetPile = 1, priority = 60,
        reason = ''Build longer sequence''\<rparr>]"
    by (simp add: findMeaningfulMoves_def discoveredMoves_def cardBody_def targetBody_def
        mixedState_def getMovableCards_def canPlaceCard_def topCard_def mkCard_def
        getSequenceLengthFromEnd_def upt_rec Let_def)
  have e: "scoredMoves specPriority mixedState = []"
    by (simp add: scoredMoves_def specPriority_def tablePriority_def candidate_def mixedState_def
        getMovableCards_def canPlaceCard_def topCard_def flipsCard_def growsRun_def
        tailOfLonger_def getSequenceLengthFromEnd_def upt_rec mkCard_def Let_def)
  have a': "getSequenceLengthFromEnd (tableau spadeState ! 1) = 2"
    by (simp add: spadeState_def mixedState_def getSequenceLengthFromEnd_def mkCard_def)
  have b': "getSequenceLengthFromEnd
     \<lparr>cards = cards (tableau spadeState ! 1) @ getMovableCards (tableau spadeState ! 0) 1\<rparr> = 4"
    by (simp add: spadeState_def mixedState_def getSequenceLengthFromEnd_def getMovableCards_def
        mkCard_def)
  have cand: "candidate spadeState 0 1 1"
    by (simp add: candidate_def spadeState_def mixedState_def getMovableCards_def canPlaceCard_def
        topCard_def mkCard_def)
  have fl': "\<not> flipsCard spadeState 0 1"
    by (simp add: flipsCard_def spadeState_def mixedState_def mkCard_def)
  have tl': "\<not> tailOfLonger spadeState 0 1"
    by (simp add: tailOfLonger_def spadeState_def mixedState_def mkCard_def)
  have tc': "topCard (tableau spadeState ! 1) = Some (mkCard 4 Spades R6 True)"
    by (simp add: topCard_def spadeState_def mixedState_def)
  have su': "suit (cards (tableau spadeState ! 0) ! 1) = Spades"
    by (simp add: spadeState_def mixedState_def mkCard_def)
  have g': "growsRun spadeState 0 1 1"
    unfolding growsRun_def using a' b' by simp
  have c': "specPriority spadeState 0 1 1 = Some 60"
    using cand fl' tl' tc' su' g' by (simp add: specPriority_def tablePriority_def mkCard_def)
  have d': "map moveKey (findMeaningfulMoves spadeState) = [(0, 1, 1, 60)]"
    by (simp add: findMeaningfulMoves_def discoveredMoves_def cardBody_def targetBody_def
        spadeState_def mixedState_def getMovableCards_def canPlaceCard_def topCard_def mkCard_def
        moveKey_def getSequenceLengthFromEnd_def upt_rec Let_def)
  show ?thesis using m a b c d e c' d' by (simp add: moveKey_def)
qed

section \<open>Flipping the top card and flipping it back\<close>

lemma shuffleLoop_id: "shuffleLoop (\<lambda>i. i) n xs = xs"
  by (induction n arbitrary: xs) (simp_all add: swap_def)

lemma shuffleDeck_id: "shuffleDeck (\<lambda>i. i) xs = xs"
  by (simp add: shuffleDeck_def shuffleLoop_id)

lemma flipTop_ids [simp]: "map cid (fst (flipTop xs)) = map cid xs"
  by (simp add: flipTop_def map_update list_update_same_conv)

lemma flipTop_length [simp]: "length (fst (flipTop xs)) = length xs"
  by (simp add: flipTop_def)

lemma flipTop_None: "snd (flipTop xs) = None \<Longrightarrow> fst (flipTop xs) = xs"
  by (auto simp: flipTop_def split: if_splits)

lemma flipTop_Some:
  assumes "snd (flipTop xs) = Some i"
  shows "xs \<noteq> [] \<and> i = cid (last xs) \<and> \<not> faceUp (last xs) \<and>
         fst (flipTop xs) = butlast xs @ [(last xs)\<lparr>faceUp := True\<rparr>]"
proof -
  from assms have ne: "xs \<noteq> []" and down: "\<not> faceUp (xs ! (length xs - 1))"
    and i: "i = cid (xs ! (length xs - 1))"
    by (auto simp: flipTop_def split: if_splits)
  have l: "xs ! (length xs - 1) = last xs" using ne by (simp add: last_conv_nth)
  have "xs = butlast xs @ [last xs]" using ne by simp
  then have "xs[length xs - 1 := (last xs)\<lparr>faceUp := True\<rparr>] = butlast xs @ [(last xs)\<lparr>faceUp := True\<rparr>]"
    by (metis length_butlast list_update_length)
  then show ?thesis using ne down i l by (simp add: flipTop_def)
qed

lemma sorted_faceUp_last_down:
  assumes "sorted (map faceUp xs)" "xs \<noteq> []" "\<not> faceUp (last xs)" "x \<in> set xs"
  shows "\<not> faceUp x"
proof -
  from assms(4) obtain j where j: "j < length xs" "xs ! j = x" by (auto simp: in_set_conv_nth)
  have "map faceUp xs ! j \<le> map faceUp xs ! (length xs - 1)"
    using assms(1,2) j(1) by (intro sorted_nth_mono) simp_all
  then show ?thesis using assms(2,3) j by (simp add: last_conv_nth)
qed

lemma flipTop_sorted:
  assumes "sorted (map faceUp xs)"
  shows "sorted (map faceUp (fst (flipTop xs)))"
proof (cases "snd (flipTop xs)")
  case None
  then show ?thesis using assms by (simp add: flipTop_None)
next
  case (Some i)
  note f = flipTop_Some [OF Some]
  have "\<forall>x\<in>set (butlast xs). \<not> faceUp x"
    using sorted_faceUp_last_down [OF assms] f by (auto dest: in_set_butlastD)
  moreover have "sorted (map faceUp (butlast xs))"
    using assms by (metis map_butlast sorted_butlast)
  ultimately show ?thesis using f by (simp add: sorted_append)
qed

lemma completeRun_bound13: "completeRun xs k \<Longrightarrow> k + 13 \<le> length xs"
  by (simp add: completeRun_def)

lemma completeRun_faceUp:
  assumes "completeRun xs k" "j < 13"
  shows "faceUp (xs ! (k + j))"
proof -
  from assms(1) have b: "k + 13 \<le> length xs"
    and m: "map faceUp (take 13 (drop k xs)) = replicate 13 True"
    by (simp_all add: completeRun_def)
  have "replicate 13 True ! j = map faceUp (take 13 (drop k xs)) ! j" using m by simp
  also have "\<dots> = faceUp (xs ! (k + j))" using b assms(2) by simp
  finally show ?thesis using assms(2) by simp
qed

lemma completeRun_ace:
  assumes "completeRun xs k"
  shows "rank (xs ! (k + 12)) = RA"
proof -
  from assms have b: "k + 13 \<le> length xs"
    and m: "map rank (take 13 (drop k xs)) = [RK, RQ, RJ, R10, R9, R8, R7, R6, R5, R4, R3, R2, RA]"
    by (simp_all add: completeRun_def)
  have "[RK, RQ, RJ, R10, R9, R8, R7, R6, R5, R4, R3, R2, RA] ! 12 =
      map rank (take 13 (drop k xs)) ! 12" using m by simp
  also have "\<dots> = rank (xs ! (k + 12))" using b by simp
  finally show ?thesis by simp
qed

lemma completeRun_prefix:
  assumes "k + 13 \<le> length xs"
  shows "completeRun (xs @ ys) k = completeRun xs k"
proof -
  have "take 13 (drop k (xs @ ys)) = take 13 (drop k xs)" using assms by simp
  moreover have "(xs @ ys) ! k = xs ! k" using assms by (simp add: nth_append)
  ultimately show ?thesis using assms by (simp add: completeRun_def)
qed

lemma completeRun_take: "completeRun (take m xs) k \<Longrightarrow> completeRun xs k"
proof -
  assume a: "completeRun (take m xs) k"
  then have "k + 13 \<le> length (take m xs)" by (rule completeRun_bound13)
  then have "completeRun (take m xs @ drop m xs) k = completeRun (take m xs) k"
    by (rule completeRun_prefix)
  then show ?thesis using a by simp
qed

lemma flipTop_no_run:
  assumes "sorted (map faceUp xs)" and "\<not> completeRun xs k"
  shows "\<not> completeRun (fst (flipTop xs)) k"
proof (cases "snd (flipTop xs)")
  case None
  then show ?thesis using assms by (simp add: flipTop_None)
next
  case (Some i)
  note f = flipTop_Some [OF Some]
  show ?thesis
  proof
    assume c: "completeRun (fst (flipTop xs)) k"
    then have b: "k + 13 \<le> length xs" using completeRun_bound13 by fastforce
    have "faceUp (fst (flipTop xs) ! (k + 0))" using c by (rule completeRun_faceUp) simp
    moreover have "k < length (butlast xs)" using b by simp
    ultimately have "faceUp (butlast xs ! k)" using f by (simp add: nth_append)
    moreover have "butlast xs ! k \<in> set xs"
      using \<open>k < length (butlast xs)\<close> by (meson in_set_butlastD nth_mem)
    ultimately show False using sorted_faceUp_last_down [OF assms(1)] f by blast
  qed
qed

lemma rankValues_pos: "1 \<le> rankValues r"
  by (cases r) simp_all

lemma run_on_top:
  assumes none: "\<And>j. \<not> completeRun D j" and desc: "descendingByOne run"
    and c: "completeRun (D @ run) k"
  shows "k + 13 = length (D @ run)"
proof (rule ccontr)
  assume "k + 13 \<noteq> length (D @ run)"
  then have lt: "k + 13 < length D + length run" using completeRun_bound13 [OF c] by simp
  show False
  proof (cases "k + 13 \<le> length D")
    case True
    then show False using completeRun_prefix [of k D run] c none by simp
  next
    case False
    define a where "a = k + 12 - length D"
    have a: "k + 12 = length D + a" "Suc a < length run" using False lt by (simp_all add: a_def)
    have "rank ((D @ run) ! (k + 12)) = RA" using c by (rule completeRun_ace)
    then have "rank (run ! a) = RA" using a by (simp add: nth_append)
    moreover have "rankValues (rank (run ! a)) = rankValues (rank (run ! Suc a)) + 1"
      using desc a(2) by (simp add: descendingByOne_def)
    ultimately have "rankValues (rank (run ! Suc a)) = 0" by simp
    then show False using rankValues_pos [of "rank (run ! Suc a)"] by simp
  qed
qed

lemma findIndex_append_skip:
  "\<forall>x\<in>set xs. \<not> P x \<Longrightarrow>
   findIndex P (xs @ ys) = map_option (\<lambda>k. length xs + k) (findIndex P ys)"
proof (induction xs)
  case Nil
  then show ?case by (cases "findIndex P ys") simp_all
next
  case (Cons x xs)
  then show ?case by (cases "findIndex P ys") simp_all
qed

lemma flipBack_flipTop:
  assumes d: "distinct (map cid xs)" and s: "snd (flipTop xs) = Some i"
  shows "flipBack i (fst (flipTop xs) @ ys) = xs @ ys"
proof -
  note f = flipTop_Some [OF s]
  define c where "c = last xs"
  define b where "b = butlast xs"
  have xs: "xs = b @ [c]" using f by (simp add: b_def c_def)
  have i: "i = cid c" and down: "\<not> faceUp c" using f by (simp_all add: c_def)
  have fl: "fst (flipTop xs) = b @ [c\<lparr>faceUp := True\<rparr>]" using f by (simp add: b_def c_def)
  have skip: "\<forall>x\<in>set b. \<not> cid x = i" using d xs i by (auto simp: image_iff)
  have "findIndex (\<lambda>x. cid x = i) (b @ (c\<lparr>faceUp := True\<rparr> # ys)) = Some (length b)"
    using findIndex_append_skip [OF skip, of "c\<lparr>faceUp := True\<rparr> # ys"] i by simp
  moreover have "c\<lparr>faceUp := True, faceUp := False\<rparr> = c" using down by simp
  ultimately have "flipBack i ((b @ [c\<lparr>faceUp := True\<rparr>]) @ ys) = (b @ [c]) @ ys"
    by (simp add: flipBack_def)
  then show ?thesis by (metis fl xs)
qed

section \<open>Taking the moved cards out of the target pile\<close>

lemma extractMoved_append:
  "extractMoved ids n (xs @ ys) acc = extractMoved ids n ys (extractMoved ids n xs acc)"
proof (induction xs arbitrary: acc)
  case Nil
  then show ?case by simp
next
  case (Cons x xs)
  obtain bk remaining where acc: "acc = (bk, remaining)" by (cases acc)
  show ?case unfolding acc using Cons.IH by simp
qed

lemma extractMoved_others:
  "\<forall>x\<in>set xs. cid x \<notin> set ids \<Longrightarrow>
   extractMoved ids n xs (bk, remaining) = (bk, remaining @ xs)"
  by (induction xs arbitrary: remaining) simp_all

lemma extractMoved_moved:
  "\<forall>x\<in>set xs. cid x \<in> set ids \<Longrightarrow> length bk + length xs \<le> n \<Longrightarrow>
   extractMoved ids n xs (bk, remaining) = (bk @ xs, remaining)"
  by (induction xs arbitrary: bk) simp_all

lemma extractMoved_target:
  assumes "set (map cid D) \<inter> set (map cid run) = {}"
  shows "extractMoved (map cid run) (length run) (D @ run) ([], []) = (run, D)"
proof -
  have "\<forall>x\<in>set D. cid x \<notin> set (map cid run)" using assms by auto
  then have "extractMoved (map cid run) (length run) D ([], []) = ([], D)"
    using extractMoved_others [of D "map cid run" "length run" "[]" "[]"] by simp
  moreover have "extractMoved (map cid run) (length run) run ([], D) = (run, D)"
    using extractMoved_moved [of run "map cid run" "[]" "length run" D] by simp
  ultimately show ?thesis by (simp add: extractMoved_append)
qed

section \<open>Removing completed runs and putting them back\<close>

lemma checkPile_none:
  "\<not> completed (checkForCompletedSequence p) \<Longrightarrow> checkPile clock (p, i) = (p, None)"
  by (simp add: checkPile_def Let_def)

lemma checkPile_some:
  assumes c: "completed (checkForCompletedSequence p)"
    and top: "\<And>k. completeRun (cards p) k \<Longrightarrow> k + 13 = length (cards p)"
  shows "\<exists>su. checkPile clock (p, i) =
     (\<lparr>cards = fst (flipTop (take (length (cards p) - 13) (cards p)))\<rparr>,
      Some (\<lparr>ci_pileIndex = i, ci_cards = drop (length (cards p) - 13) (cards p), ci_suit = su,
             ci_flippedCard = snd (flipTop (take (length (cards p) - 13) (cards p)))\<rparr>,
            \<lparr>seq_id = SeqId su (clock i) i, seq_suit = su\<rparr>))"
proof -
  from check_found [OF c] obtain k where k: "startIndex (checkForCompletedSequence p) = int k"
      "completeRun (cards p) k" "res_suit (checkForCompletedSequence p) = Some (suit (cards p ! k))"
    by blast
  have kk: "k = length (cards p) - 13" "length (cards p) - k = 13" using top [OF k(2)] by simp_all
  have "take 13 (drop k (cards p)) = drop k (cards p)" using kk by simp
  then show ?thesis using c k kk(1)
    by (simp add: checkPile_def Let_def split_beta)
qed

lemma checkPile_index:
  "snd (checkPile clock (p, i)) = Some (info, sq) \<Longrightarrow> ci_pileIndex info = i"
  by (auto simp: checkPile_def Let_def split_beta split: bool.splits option.splits)

lemma restorePile_checkPile:
  assumes top: "\<And>k. completeRun (cards p) k \<Longrightarrow> k + 13 = length (cards p)"
    and d: "distinct (map cid (cards p))"
    and f: "find (\<lambda>c. ci_pileIndex c = i) infos = map_option fst (snd (checkPile clock (p, i)))"
  shows "restorePile infos (fst (checkPile clock (p, i)), i) = p"
proof (cases "completed (checkForCompletedSequence p)")
  case False
  then show ?thesis using f by (simp add: checkPile_none restorePile_def)
next
  case True
  define m where "m = length (cards p) - 13"
  from checkPile_some [OF True top, of clock i] obtain su where
    cp: "checkPile clock (p, i) =
     (\<lparr>cards = fst (flipTop (take m (cards p)))\<rparr>,
      Some (\<lparr>ci_pileIndex = i, ci_cards = drop m (cards p), ci_suit = su,
             ci_flippedCard = snd (flipTop (take m (cards p)))\<rparr>,
            \<lparr>seq_id = SeqId su (clock i) i, seq_suit = su\<rparr>))"
    unfolding m_def by blast
  have dt: "distinct (map cid (take m (cards p)))"
    using d by (simp add: take_map [symmetric])
  have "(case snd (flipTop (take m (cards p))) of
           None \<Rightarrow> fst (flipTop (take m (cards p))) @ drop m (cards p)
         | Some j \<Rightarrow> flipBack j (fst (flipTop (take m (cards p))) @ drop m (cards p))) = cards p"
  proof (cases "snd (flipTop (take m (cards p)))")
    case None
    then show ?thesis by (simp add: flipTop_None)
  next
    case (Some j)
    then show ?thesis using flipBack_flipTop [OF dt Some, of "drop m (cards p)"] by simp
  qed
  then show ?thesis using f cp by (simp add: restorePile_def)
qed

lemma find_infos_absent:
  "i \<notin> snd ` set xs \<Longrightarrow>
   find (\<lambda>c. ci_pileIndex c = i) (map fst (List.map_filter snd (map (checkPile clock) xs))) = None"
proof (induction xs)
  case Nil
  then show ?case by simp
next
  case (Cons x xs)
  obtain q j where x: "x = (q, j)" by (cases x)
  have ji: "j \<noteq> i" using Cons.prems x by auto
  show ?case
  proof (cases "snd (checkPile clock (q, j))")
    case None
    then show ?thesis using Cons x by simp
  next
    case (Some y)
    obtain info sq where y: "y = (info, sq)" by (cases y)
    have "ci_pileIndex info = j" using Some y by (intro checkPile_index [of clock q j info sq]) simp
    then show ?thesis using Cons x Some y ji by simp
  qed
qed

lemma find_infos:
  "distinct (map snd xs) \<Longrightarrow> (p, i) \<in> set xs \<Longrightarrow>
   find (\<lambda>c. ci_pileIndex c = i) (map fst (List.map_filter snd (map (checkPile clock) xs))) =
   map_option fst (snd (checkPile clock (p, i)))"
proof (induction xs)
  case Nil
  then show ?case by simp
next
  case (Cons x xs)
  obtain q j where x: "x = (q, j)" by (cases x)
  have dist: "distinct (map snd xs)" and jn: "j \<notin> snd ` set xs" using Cons.prems(1) x by simp_all
  show ?case
  proof (cases "(p, i) = (q, j)")
    case True
    show ?thesis
    proof (cases "snd (checkPile clock (q, j))")
      case None
      then show ?thesis using True x find_infos_absent [of j xs clock] jn
        by simp
    next
      case (Some y)
      obtain info sq where y: "y = (info, sq)" by (cases y)
      have "ci_pileIndex info = j" using Some y by (intro checkPile_index [of clock q j info sq]) simp
      then show ?thesis using True x Some y by simp
    qed
  next
    case False
    then have mem: "(p, i) \<in> set xs" using Cons.prems(2) x by auto
    then have ji: "j \<noteq> i" using jn by force
    note ih = Cons.IH [OF dist mem]
    show ?thesis
    proof (cases "snd (checkPile clock (q, j))")
      case None
      then show ?thesis using ih x by simp
    next
      case (Some y)
      obtain info sq where y: "y = (info, sq)" by (cases y)
      have "ci_pileIndex info = j" using Some y by (intro checkPile_index [of clock q j info sq]) simp
      then show ?thesis using ih x Some y ji by simp
    qed
  qed
qed

lemma zip_upt_nth: "i < length T \<Longrightarrow> zip T [0..<length T] ! i = (T ! i, i)"
  by simp

lemma zip_upt_mem: "i < length T \<Longrightarrow> (T ! i, i) \<in> set (zip T [0..<length T])"
  by (metis zip_upt_nth length_zip length_upt min.idem diff_zero nth_mem)

lemma restore_tableau:
  fixes clock :: "nat \<Rightarrow> nat" and T :: "Pile list"
    and results :: "(Pile \<times> (CompletedInfo \<times> CompletedSequence) option) list"
  assumes piles: "\<And>p. p \<in> set T \<Longrightarrow>
      (\<forall>k. completeRun (cards p) k \<longrightarrow> k + 13 = length (cards p)) \<and> distinct (map cid (cards p))"
  defines "results \<equiv> map (checkPile clock) (zip T [0..<length T])"
  shows "map (restorePile (map fst (List.map_filter snd results)))
           (zip (map fst results) [0..<length (map fst results)]) = T"
proof (rule nth_equalityI)
  show "length (map (restorePile (map fst (List.map_filter snd results)))
           (zip (map fst results) [0..<length (map fst results)])) = length T"
    by (simp add: results_def)
next
  fix i
  assume "i < length (map (restorePile (map fst (List.map_filter snd results)))
           (zip (map fst results) [0..<length (map fst results)]))"
  then have i: "i < length T" by (simp add: results_def)
  have mem: "(T ! i, i) \<in> set (zip T [0..<length T])" using i by (rule zip_upt_mem)
  have dist: "distinct (map snd (zip T [0..<length T]))" by simp
  have f: "find (\<lambda>c. ci_pileIndex c = i) (map fst (List.map_filter snd results)) =
      map_option fst (snd (checkPile clock (T ! i, i)))"
    unfolding results_def using dist mem by (rule find_infos)
  have p: "(\<forall>k. completeRun (cards (T ! i)) k \<longrightarrow> k + 13 = length (cards (T ! i))) \<and>
      distinct (map cid (cards (T ! i)))"
    using piles i by simp
  have "restorePile (map fst (List.map_filter snd results)) (fst (checkPile clock (T ! i, i)), i) = T ! i"
    using p f by (intro restorePile_checkPile) blast+
  then show "map (restorePile (map fst (List.map_filter snd results)))
           (zip (map fst results) [0..<length (map fst results)]) ! i = T ! i"
    using i by (simp add: results_def)
qed

lemma map_filter_none: "List.map_filter f xs = [] \<Longrightarrow> x \<in> set xs \<Longrightarrow> f x = None"
  by (induction xs) (auto split: option.splits)

lemma unchanged_tableau:
  assumes "List.map_filter snd (map (checkPile clock) (zip T [0..<length T])) = []"
  shows "map fst (map (checkPile clock) (zip T [0..<length T])) = T"
proof (rule nth_equalityI)
  show "length (map fst (map (checkPile clock) (zip T [0..<length T]))) = length T" by simp
next
  fix i assume "i < length (map fst (map (checkPile clock) (zip T [0..<length T])))"
  then have i: "i < length T" by simp
  have "checkPile clock (T ! i, i) \<in> set (map (checkPile clock) (zip T [0..<length T]))"
    using zip_upt_mem [OF i] by simp
  then have n: "snd (checkPile clock (T ! i, i)) = None"
    using map_filter_none [OF assms] by blast
  have "fst (checkPile clock (T ! i, i)) = T ! i"
  proof (cases "completed (checkForCompletedSequence (T ! i))")
    case False
    then show ?thesis by (simp add: checkPile_none)
  next
    case True
    then obtain su where "res_suit (checkForCompletedSequence (T ! i)) = Some su"
      using check_found by blast
    then show ?thesis using n True by (simp add: checkPile_def Let_def split_beta)
  qed
  then show "map fst (map (checkPile clock) (zip T [0..<length T])) ! i = T ! i"
    using i by simp
qed

lemma check_tableau:
  "tableau (state (checkCompletedSequences clock g)) =
   map fst (map (checkPile clock) (zip (tableau (state g)) [0..<length (tableau (state g))]))"
proof (cases "List.map_filter snd (map (checkPile clock)
    (zip (tableau (state g)) [0..<length (tableau (state g))])) = []")
  case True
  then have "checkCompletedSequences clock g = g"
    by (simp add: checkCompletedSequences_def Let_def)
  then show ?thesis using unchanged_tableau [OF True] by simp
next
  case False
  then show ?thesis by (simp add: checkCompletedSequences_def Let_def)
qed

lemma check_frame:
  "\<exists>a b c hs. checkCompletedSequences clock g =
     g\<lparr>state := (state g)\<lparr>tableau := a, completedSequences := b, gameWon := c\<rparr>, history := hs\<rparr>"
proof (cases "List.map_filter snd (map (checkPile clock)
    (zip (tableau (state g)) [0..<length (tableau (state g))])) = []")
  case True
  have "g = g\<lparr>state := (state g)\<lparr>tableau := tableau (state g),
      completedSequences := completedSequences (state g), gameWon := gameWon (state g)\<rparr>,
      history := history g\<rparr>" by simp
  moreover have "checkCompletedSequences clock g = g"
    using True by (simp add: checkCompletedSequences_def Let_def)
  ultimately show ?thesis by metis
next
  case False
  then show ?thesis by (simp add: checkCompletedSequences_def Let_def) blast
qed

lemma check_restore:
  assumes h: "history g \<noteq> []" "h_completedSequences (last (history g)) = None"
    and piles: "\<And>p. p \<in> set (tableau (state g)) \<Longrightarrow>
      (\<forall>k. completeRun (cards p) k \<longrightarrow> k + 13 = length (cards p)) \<and> distinct (map cid (cards p))"
  shows "history (checkCompletedSequences clock g) \<noteq> [] \<and>
         butlast (history (checkCompletedSequences clock g)) = butlast (history g) \<and>
         (\<exists>X. last (history (checkCompletedSequences clock g)) =
               (last (history g))\<lparr>h_completedSequences := X\<rparr>) \<and>
         restoreSequences (state (checkCompletedSequences clock g))
             (last (history (checkCompletedSequences clock g))) =
           (completedSequences (state g), tableau (state g))"
proof -
  define T where "T = tableau (state g)"
  define results where "results = map (checkPile clock) (zip T [0..<length T])"
  define pushed where "pushed = List.map_filter snd results"
  define hs where "hs = butlast (history g)"
  define e where "e = last (history g)"
  have hist: "history g = hs @ [e]" using h(1) by (simp add: hs_def e_def)
  show ?thesis
  proof (cases "pushed = []")
    case True
    then have "checkCompletedSequences clock g = g"
      by (simp add: checkCompletedSequences_def Let_def pushed_def results_def T_def)
    moreover have "restoreSequences (state g) (last (history g)) =
        (completedSequences (state g), tableau (state g))"
      using h(2) by (simp add: restoreSequences_def)
    moreover have "last (history g) = (last (history g))\<lparr>h_completedSequences := None\<rparr>"
      using h(2) by simp
    ultimately show ?thesis using h(1) by metis
  next
    case False
    define infos where "infos = map fst pushed"
    have len: "length infos > 0" "length infos = length (map snd pushed)"
      using False by (simp_all add: infos_def)
    have st: "state (checkCompletedSequences clock g) =
        (state g)\<lparr>tableau := map fst results,
                   completedSequences := completedSequences (state g) @ map snd pushed,
                   gameWon := (length (completedSequences (state g) @ map snd pushed) = 8)\<rparr>"
      using False by (simp add: checkCompletedSequences_def Let_def pushed_def results_def T_def)
    have hi: "history (checkCompletedSequences clock g) = hs @ [e\<lparr>h_completedSequences := Some infos\<rparr>]"
      using False hist
      by (simp add: checkCompletedSequences_def Let_def pushed_def results_def T_def infos_def)
    have rt: "map (restorePile infos) (zip (map fst results) [0..<length (map fst results)]) = T"
      unfolding infos_def pushed_def results_def
      using piles by (intro restore_tableau) (simp add: T_def)
    have r: "restoreSequences (state (checkCompletedSequences clock g))
        (e\<lparr>h_completedSequences := Some infos\<rparr>) = (completedSequences (state g), T)"
      using len rt by (simp add: restoreSequences_def st)
    have 1: "history (checkCompletedSequences clock g) \<noteq> []" using hi by simp
    have 2: "butlast (history (checkCompletedSequences clock g)) = hs" using hi by simp
    have 3: "last (history (checkCompletedSequences clock g)) = e\<lparr>h_completedSequences := Some infos\<rparr>"
      using hi by simp
    show ?thesis
      unfolding hs_def [symmetric] e_def [symmetric] T_def [symmetric]
      using 1 2 3 r by auto
  qed
qed

section \<open>The invariant of the state\<close>

lemma cardIds_append [simp]: "cardIds (xs @ ys) = cardIds xs + cardIds ys"
  by (simp add: cardIds_def)

lemma cardIds_Nil [simp]: "cardIds [] = {#}"
  by (simp add: cardIds_def)

lemma cardIds_Cons [simp]: "cardIds (x # xs) = add_mset (cid x) (cardIds xs)"
  by (simp add: cardIds_def)

lemma cardIds_flipTop [simp]: "cardIds (fst (flipTop xs)) = cardIds xs"
  unfolding cardIds_def by (simp only: flipTop_ids)

lemma cardIds_take_drop: "cardIds (take m cs) + cardIds (drop m cs) = cardIds cs"
  by (metis append_take_drop_id cardIds_append)

lemma cardIds_take_subset: "cardIds (take m cs) \<subseteq># cardIds cs"
  by (metis cardIds_take_drop mset_subset_eq_add_left)

lemma distinct_ids_subset:
  assumes "distinct (map cid xs)" and "cardIds ys \<subseteq># cardIds xs"
  shows "distinct (map cid ys)"
  unfolding distinct_count_atmost_1 [of "map cid ys"]
proof
  fix a
  have "count (mset (map cid ys)) a \<le> count (mset (map cid xs)) a"
    using assms(2) unfolding cardIds_def by (rule mset_subset_eq_count)
  also have "\<dots> \<le> 1" using assms(1) unfolding distinct_count_atmost_1 [of "map cid xs"] by simp
  finally have le: "count (mset (map cid ys)) a \<le> 1" .
  show "count (mset (map cid ys)) a = (if a \<in> set (map cid ys) then 1 else 0)"
  proof (cases "a \<in> set (map cid ys)")
    case True
    then have "0 < count (mset (map cid ys)) a" by (rule count_mset_gt_0)
    then have "count (mset (map cid ys)) a = 1" using le by linarith
    then show ?thesis using True by (simp only: if_True)
  next
    case False
    then have "count (mset (map cid ys)) a = 0" by (simp only: count_mset_0_iff not_False_eq_True)
    then show ?thesis using False by (simp only: if_False)
  qed
qed

lemma distinct_ids_eq: "cardIds ys = cardIds xs \<Longrightarrow> distinct (map cid xs) \<Longrightarrow> distinct (map cid ys)"
  using distinct_ids_subset [of xs ys] by simp

lemma checkPile_ids: "cardIds (cards (fst (checkPile clock (p, i)))) \<subseteq># cardIds (cards p)"
  by (auto simp: checkPile_def Let_def split_beta cardIds_take_subset split: bool.splits option.splits)

lemma concat_ids_subset:
  "list_all2 (\<lambda>p q. cardIds (cards p) \<subseteq># cardIds (cards q)) T' T \<Longrightarrow>
   cardIds (concat (map cards T')) \<subseteq># cardIds (concat (map cards T))"
  by (induction rule: list_all2_induct) (simp_all add: mset_subset_eq_mono_add)

lemma check_ids:
  "cardIds (concat (map cards (tableau (state (checkCompletedSequences clock g))))) \<subseteq>#
   cardIds (concat (map cards (tableau (state g))))"
proof -
  have "list_all2 (\<lambda>p q. cardIds (cards p) \<subseteq># cardIds (cards q))
      (map fst (map (checkPile clock) (zip (tableau (state g)) [0..<length (tableau (state g))])))
      (tableau (state g))"
    by (rule list_all2_all_nthI) (simp_all add: checkPile_ids)
  then show ?thesis unfolding check_tableau by (rule concat_ids_subset)
qed

lemma check_stock [simp]: "stock (state (checkCompletedSequences clock g)) = stock (state g)"
  using check_frame [of clock g] by auto

lemma check_moves [simp]: "moves (state (checkCompletedSequences clock g)) = moves (state g)"
  using check_frame [of clock g] by auto

lemma check_difficulty [simp]:
  "difficulty (state (checkCompletedSequences clock g)) = difficulty (state g)"
  using check_frame [of clock g] by auto

lemma check_store [simp]:
  "selectedPile (checkCompletedSequences clock g) = selectedPile g"
  "selectedCardIndex (checkCompletedSequences clock g) = selectedCardIndex g"
  "gameKey (checkCompletedSequences clock g) = gameKey g"
  "initialState (checkCompletedSequences clock g) = initialState g"
  "hint (checkCompletedSequences clock g) = hint g"
  using check_frame [of clock g] by auto

lemma check_gameWon:
  assumes "gameWon (state g) = (length (completedSequences (state g)) = 8)"
  shows "gameWon (state (checkCompletedSequences clock g)) =
         (length (completedSequences (state (checkCompletedSequences clock g))) = 8)"
  using assms by (simp add: checkCompletedSequences_def Let_def)

lemma sorted_faceUp_take: "sorted (map faceUp cs) \<Longrightarrow> sorted (map faceUp (take m cs))"
  by (simp add: take_map [symmetric])

lemma checkPile_settled:
  assumes "pileDealt p"
  shows "pileSettled (fst (checkPile clock (p, i)))"
proof (cases "completed (checkForCompletedSequence p)")
  case False
  then have "\<And>k. \<not> completeRun (cards p) k" using check_completed_iff by blast
  then show ?thesis using assms False by (simp add: checkPile_none pileDealt_def pileSettled_def)
next
  case True
  define m where "m = length (cards p) - 13"
  have top: "\<And>k. completeRun (cards p) k \<Longrightarrow> k + 13 = length (cards p)"
    using assms by (simp add: pileDealt_def)
  from checkPile_some [OF True top, of clock i]
  have cp: "cards (fst (checkPile clock (p, i))) = fst (flipTop (take m (cards p)))"
    unfolding m_def by auto
  have s: "sorted (map faceUp (take m (cards p)))"
    using assms by (simp add: pileDealt_def sorted_faceUp_take)
  have "\<And>k. \<not> completeRun (take m (cards p)) k"
  proof
    fix k assume c: "completeRun (take m (cards p)) k"
    have "k + 13 \<le> length (take m (cards p))" using c by (rule completeRun_bound13)
    then have "k + 13 \<le> m" by simp
    moreover have "k + 13 = length (cards p)" using completeRun_take [OF c] by (rule top)
    ultimately show False by (simp add: m_def)
  qed
  then have "\<And>k. \<not> completeRun (fst (flipTop (take m (cards p)))) k"
    using flipTop_no_run [OF s] by blast
  then show ?thesis using s cp by (simp add: pileSettled_def flipTop_sorted)
qed

lemma check_inv:
  assumes "stateInv pileDealt (state g)"
  shows "stateInv pileSettled (state (checkCompletedSequences clock g))"
proof -
  define g' where "g' = checkCompletedSequences clock g"
  have len: "length (tableau (state g')) = 10"
    using assms by (simp add: g'_def check_tableau stateInv_def)
  have "cardIds (allCards (state g')) \<subseteq># cardIds (allCards (state g))"
    using check_ids [of clock g] by (simp add: allCards_def g'_def)
  moreover have "distinct (map cid (allCards (state g)))" using assms by (simp add: stateInv_def)
  ultimately have dist: "distinct (map cid (allCards (state g')))"
    using distinct_ids_subset by blast
  have piles: "\<forall>p\<in>set (tableau (state g')). pileSettled p"
  proof
    fix p assume "p \<in> set (tableau (state g'))"
    then obtain q i where "(q, i) \<in> set (zip (tableau (state g)) [0..<length (tableau (state g))])"
      and p: "p = fst (checkPile clock (q, i))"
      unfolding g'_def check_tableau by auto
    then have "q \<in> set (tableau (state g))" by (meson set_zip_leftD)
    then have "pileDealt q" using assms by (simp add: stateInv_def)
    then show "pileSettled p" unfolding p by (rule checkPile_settled)
  qed
  have won: "gameWon (state g') = (length (completedSequences (state g')) = 8)"
    unfolding g'_def using assms by (intro check_gameWon) (simp add: stateInv_def)
  have st: "length (stock (state g')) mod 10 = 0"
    using assms by (simp add: g'_def stateInv_def)
  show ?thesis unfolding g'_def [symmetric] stateInv_def using len dist piles won st by blast
qed

section \<open>A legal move and its undo\<close>

lemma pile_eq [simp]: "(\<lparr>cards = cs\<rparr> = p) = (cs = cards p)"
  by (cases p) auto

lemma zip_update2:
  assumes "sp \<noteq> t"
  shows "map (\<lambda>(pile, idx). if idx = sp then a else if idx = t then b else pile)
           (zip T [0..<length T]) = T[sp := a, t := b]"
  using assms by (intro nth_equalityI) (auto simp: nth_list_update)

lemma moveCards_legal:
  assumes "legalMove g t" "selectedPile g = Some sp" "selectedCardIndex g = Some sci"
  shows "moveCards clock g t = Inr (checkCompletedSequences clock (afterMove g sp sci t))"
proof -
  from assms have ne: "sp \<noteq> t" and sp: "sp < length (tableau (state g))"
    and t: "t < length (tableau (state g))"
    and run: "getMovableCards (tableau (state g) ! sp) (int sci) \<noteq> []"
    and place: "canPlaceCard (hd (getMovableCards (tableau (state g) ! sp) (int sci)))
            (topCard (tableau (state g) ! t))"
    by (simp_all add: legalMove_def)
  show ?thesis
    using assms(2,3) ne sp t run place
    by (simp add: moveCards_def afterMove_def Let_def split_beta zip_update2 [OF ne])
qed

lemma run_facts:
  assumes "getMovableCards p (int sci) \<noteq> []"
  shows "getMovableCards p (int sci) = drop sci (cards p)" and "descendingByOne (drop sci (cards p))"
    and "sci < length (cards p)"
proof -
  show a: "getMovableCards p (int sci) = drop sci (cards p)"
    using assms by (simp add: getMovableCards_def Let_def split: if_splits)
  show "descendingByOne (drop sci (cards p))"
    using assms by (simp add: getMovableCards_def Let_def descendingLoop_iff split: if_splits)
  show "sci < length (cards p)" using assms a by simp
qed

lemma cardIds_concat_update:
  assumes "i < length T"
  shows "cardIds (concat (map cards (T[i := p]))) + cardIds (cards (T ! i)) =
         cardIds (concat (map cards T)) + cardIds (cards p)"
proof -
  have a: "T = take i T @ T ! i # drop (Suc i) T" using assms by (rule id_take_nth_drop)
  have b: "T[i := p] = take i T @ p # drop (Suc i) T" using assms by (rule upd_conv_take_nth_drop)
  have "cardIds (concat (map cards (take i T @ p # drop (Suc i) T))) + cardIds (cards (T ! i)) =
      cardIds (concat (map cards (take i T @ T ! i # drop (Suc i) T))) + cardIds (cards p)"
    by simp
  then show ?thesis using a b by metis
qed

lemma distinct_pile:
  assumes "distinct (map cid (concat (map cards T)))" and "i < length T"
  shows "distinct (map cid (cards (T ! i)))"
proof -
  have a: "T = take i T @ T ! i # drop (Suc i) T" using assms(2) by (rule id_take_nth_drop)
  have "distinct (map cid (concat (map cards (take i T @ T ! i # drop (Suc i) T))))"
    using assms(1) a by metis
  then show ?thesis by simp
qed

lemma distinct_piles_lt:
  assumes d: "distinct (map cid (concat (map cards T)))" and ij: "i < j" "j < length T"
  shows "set (map cid (cards (T ! i))) \<inter> set (map cid (cards (T ! j))) = {}"
proof -
  have i: "i < length T" using ij by simp
  have a: "T = take i T @ T ! i # drop (Suc i) T" using i by (rule id_take_nth_drop)
  have "drop (Suc i) T ! (j - Suc i) = T ! j" using ij by simp
  moreover have "j - Suc i < length (drop (Suc i) T)" using ij by simp
  ultimately have mem: "T ! j \<in> set (drop (Suc i) T)" by (metis nth_mem)
  have "distinct (map cid (concat (map cards (take i T @ T ! i # drop (Suc i) T))))"
    using d a by metis
  then have "set (map cid (cards (T ! i))) \<inter> set (map cid (concat (map cards (drop (Suc i) T)))) = {}"
    by auto
  moreover have "set (map cid (cards (T ! j))) \<subseteq> set (map cid (concat (map cards (drop (Suc i) T))))"
    using mem by auto
  ultimately show ?thesis by blast
qed

lemma distinct_piles:
  assumes "distinct (map cid (concat (map cards T)))" and "i \<noteq> j" "i < length T" "j < length T"
  shows "set (map cid (cards (T ! i))) \<inter> set (map cid (cards (T ! j))) = {}"
proof (cases "i < j")
  case True
  then show ?thesis using assms distinct_piles_lt by blast
next
  case False
  then have "j < i" using assms(2) by simp
  then have "set (map cid (cards (T ! j))) \<inter> set (map cid (cards (T ! i))) = {}"
    using assms distinct_piles_lt by blast
  then show ?thesis by blast
qed

lemma stateInv_tableau_distinct:
  "stateInv ok s \<Longrightarrow> distinct (map cid (concat (map cards (tableau s))))"
  by (simp add: stateInv_def allCards_def)

lemma settled_dealt: "pileSettled p \<Longrightarrow> pileDealt p"
  by (simp add: pileSettled_def pileDealt_def)

lemma afterMove_state:
  "state (afterMove g sp sci t) =
   (state g)\<lparr>tableau := (tableau (state g))
       [sp := \<lparr>cards = fst (flipTop (take sci (cards (tableau (state g) ! sp))))\<rparr>,
        t := \<lparr>cards = cards (tableau (state g) ! t) @
                       getMovableCards (tableau (state g) ! sp) (int sci)\<rparr>],
     moves := moves (state g) + 1\<rparr>"
  by (simp add: afterMove_def Let_def clearSelection_def)

lemma afterMove_inv:
  assumes inv: "stateInv pileSettled (state g)"
    and sel: "selOK (state g) (Some sp) (Some sci)"
    and legal: "legalMove g t" "selectedPile g = Some sp" "selectedCardIndex g = Some sci"
  shows "stateInv pileDealt (state (afterMove g sp sci t))"
proof -
  define T where "T = tableau (state g)"
  define S where "S = cards (T ! sp)"
  define D where "D = cards (T ! t)"
  define run where "run = getMovableCards (T ! sp) (int sci)"
  define A where "A = \<lparr>cards = fst (flipTop (take sci S))\<rparr>"
  define B where "B = \<lparr>cards = D @ run\<rparr>"
  from legal have ne: "sp \<noteq> t" and sp: "sp < length T" and t: "t < length T"
    and rne: "run \<noteq> []"
    by (simp_all add: legalMove_def T_def run_def)
  have run: "run = drop sci S" and desc: "descendingByOne run"
    using run_facts [of "T ! sp" sci] rne by (simp_all add: run_def S_def)
  have st: "state (afterMove g sp sci t) =
      (state g)\<lparr>tableau := T[sp := A, t := B], moves := moves (state g) + 1\<rparr>"
    by (simp add: afterMove_state T_def S_def D_def run_def A_def B_def)
  have Sp: "pileSettled (T ! sp)" and Dp: "pileSettled (T ! t)"
    using inv sp t by (simp_all add: stateInv_def T_def)
  have up: "faceUp (S ! sci)" and sci: "sci < length S"
    using sel by (simp_all add: selOK_def T_def S_def)
  have runUp: "list_all faceUp run"
    unfolding run using Sp up sci by (intro faceUp_suffix) (simp_all add: pileSettled_def S_def)
  have len: "length (T[sp := A, t := B]) = 10" using inv by (simp add: stateInv_def T_def)
  have ids1: "cardIds (concat (map cards (T[sp := A]))) + cardIds S =
      cardIds (concat (map cards T)) + cardIds (take sci S)"
    using cardIds_concat_update [OF sp, of A] by (simp add: A_def S_def)
  have "(T[sp := A]) ! t = T ! t" using ne by simp
  then have ids2: "cardIds (concat (map cards (T[sp := A, t := B]))) + cardIds D =
      cardIds (concat (map cards (T[sp := A]))) + (cardIds D + cardIds run)"
    using cardIds_concat_update [of t "T[sp := A]" B] t by (simp add: B_def D_def)
  have ids3: "cardIds S = cardIds (take sci S) + cardIds run"
    unfolding run by (simp add: cardIds_take_drop)
  have "cardIds (concat (map cards (T[sp := A, t := B]))) + (cardIds D + cardIds S) =
      (cardIds (concat (map cards (T[sp := A, t := B]))) + cardIds D) + cardIds S"
    by (simp only: add.assoc)
  also have "\<dots> = (cardIds (concat (map cards (T[sp := A]))) + (cardIds D + cardIds run)) + cardIds S"
    by (simp only: ids2)
  also have "\<dots> = (cardIds (concat (map cards (T[sp := A]))) + cardIds S) + (cardIds D + cardIds run)"
    by (simp only: add.assoc add.commute add.left_commute)
  also have "\<dots> = (cardIds (concat (map cards T)) + cardIds (take sci S)) + (cardIds D + cardIds run)"
    by (simp only: ids1)
  also have "\<dots> = cardIds (concat (map cards T)) + (cardIds D + (cardIds (take sci S) + cardIds run))"
    by (simp only: add.assoc add.commute add.left_commute)
  also have "\<dots> = cardIds (concat (map cards T)) + (cardIds D + cardIds S)"
    by (simp only: ids3 [symmetric])
  finally have ids: "cardIds (concat (map cards (T[sp := A, t := B]))) = cardIds (concat (map cards T))"
    by simp
  have "cardIds (allCards (state (afterMove g sp sci t))) = cardIds (allCards (state g))"
    using ids by (simp add: st allCards_def T_def)
  moreover have "distinct (map cid (allCards (state g)))" using inv by (simp add: stateInv_def)
  ultimately have dist: "distinct (map cid (allCards (state (afterMove g sp sci t))))"
    by (rule distinct_ids_eq)
  have Aok: "pileDealt A"
  proof -
    have s: "sorted (map faceUp (take sci S))"
      using Sp by (simp add: pileSettled_def S_def sorted_faceUp_take)
    have noS: "\<And>k. \<not> completeRun S k" using Sp by (simp add: pileSettled_def S_def)
    have "\<And>k. \<not> completeRun (take sci S) k"
      using noS completeRun_take [of sci S] by blast
    then have "\<And>k. \<not> completeRun (fst (flipTop (take sci S))) k"
      using flipTop_no_run [OF s] by blast
    then show ?thesis using s by (simp add: pileDealt_def A_def flipTop_sorted)
  qed
  have Bok: "pileDealt B"
  proof -
    have "sorted (map faceUp D)" using Dp by (simp add: pileSettled_def D_def)
    moreover have "sorted (map faceUp run)"
      using runUp by (induction run) (auto simp: list_all_iff)
    moreover have "\<forall>x\<in>set D. \<forall>y\<in>set run. faceUp x \<le> faceUp y"
      using runUp by (auto simp: list_all_iff)
    ultimately have s: "sorted (map faceUp (D @ run))" by (simp add: sorted_append)
    have "\<And>j. \<not> completeRun D j" using Dp by (simp add: pileSettled_def D_def)
    then have "\<And>k. completeRun (D @ run) k \<Longrightarrow> k + 13 = length (D @ run)"
      using desc by (rule run_on_top)
    then show ?thesis using s by (simp add: pileDealt_def B_def)
  qed
  have piles: "\<forall>p\<in>set (T[sp := A, t := B]). pileDealt p"
  proof
    fix p assume "p \<in> set (T[sp := A, t := B])"
    then have "p = B \<or> p = A \<or> p \<in> set T"
      using set_update_subset_insert [of "T[sp := A]" t B] set_update_subset_insert [of T sp A]
      by auto
    moreover have "\<And>q. q \<in> set T \<Longrightarrow> pileDealt q"
      using inv by (simp add: stateInv_def T_def settled_dealt)
    ultimately show "pileDealt p" using Aok Bok by blast
  qed
  show ?thesis
    unfolding stateInv_def using len dist piles inv
    by (simp add: st stateInv_def)
qed

lemma undo_move_unfold:
  assumes "history g \<noteq> []" and "h_type (last (history g)) = None"
    and "restoreSequences (state g) (last (history g)) = (cs0, T1)"
    and "0 \<le> h_to (last (history g))" and "h_to (last (history g)) < int (length T1)"
    and "extractMoved (map cid (h_cards (last (history g)))) (length (h_cards (last (history g))))
           (cards (T1 ! nat (h_to (last (history g))))) ([], []) = (bk, remaining)"
  shows "undo g = Inr (clearSelection (g\<lparr>history := butlast (history g),
      state := (state g)\<lparr>
        tableau := map (putBack (last (history g)) bk remaining) (zip T1 [0..<length T1]),
        completedSequences := cs0,
        gameWon := (length cs0 = 8),
        moves := moves (state g) - 1\<rparr>\<rparr>))"
  using assms by (simp add: undo_def Let_def split_beta)

lemma afterMove_history:
  "history (afterMove g sp sci t) =
   history g @
     [\<lparr>h_type = None, h_from = int sp, h_to = int t,
       h_cards = getMovableCards (tableau (state g) ! sp) (int sci),
       h_flippedCard =
         (case snd (flipTop (take sci (cards (tableau (state g) ! sp)))) of None \<Rightarrow> None
          | Some i \<Rightarrow> Some \<lparr>fc_pileIndex = int sp, fc_cardId = i\<rparr>),
       h_dealtCards = None, h_completedSequences = None\<rparr>]"
  by (simp add: afterMove_def Let_def clearSelection_def)

lemma afterMove_store:
  "afterMove g sp sci t =
   g\<lparr>state := state (afterMove g sp sci t), history := history (afterMove g sp sci t),
     selectedPile := None, selectedCardIndex := None\<rparr>"
  by (simp add: afterMove_def Let_def clearSelection_def)

lemma dealt_piles:
  assumes "stateInv pileDealt s" and "p \<in> set (tableau s)"
  shows "(\<forall>k. completeRun (cards p) k \<longrightarrow> k + 13 = length (cards p)) \<and> distinct (map cid (cards p))"
proof -
  from assms(2) obtain i where i: "i < length (tableau s)" "tableau s ! i = p"
    by (auto simp: in_set_conv_nth)
  have "distinct (map cid (cards (tableau s ! i)))"
    using stateInv_tableau_distinct [OF assms(1)] i(1) by (rule distinct_pile)
  moreover have "pileDealt p" using assms by (simp add: stateInv_def)
  ultimately show ?thesis using i by (simp add: pileDealt_def)
qed

lemma move_undo:
  assumes inv: "stateInv pileSettled (state g)"
    and sel: "selOK (state g) (Some sp) (Some sci)"
    and legal: "legalMove g t" "selectedPile g = Some sp" "selectedCardIndex g = Some sci"
  shows "undo (checkCompletedSequences clock (afterMove g sp sci t)) = Inr (clearSelection g)"
proof -
  define g1 where "g1 = afterMove g sp sci t"
  define g2 where "g2 = checkCompletedSequences clock g1"
  define T where "T = tableau (state g)"
  define S where "S = cards (T ! sp)"
  define D where "D = cards (T ! t)"
  define run where "run = getMovableCards (T ! sp) (int sci)"
  define A where "A = \<lparr>cards = fst (flipTop (take sci S))\<rparr>"
  define B where "B = \<lparr>cards = D @ run\<rparr>"
  define fl where "fl = (case snd (flipTop (take sci S)) of None \<Rightarrow> None
          | Some i \<Rightarrow> Some \<lparr>fc_pileIndex = int sp, fc_cardId = i\<rparr>)"
  define e where "e = \<lparr>h_type = None, h_from = int sp, h_to = int t, h_cards = run,
       h_flippedCard = fl, h_dealtCards = None, h_completedSequences = None\<rparr>"
  define T1 where "T1 = T[sp := A, t := B]"
  from legal have ne: "sp \<noteq> t" and sp: "sp < length T" and t: "t < length T"
    and rne: "run \<noteq> []"
    by (simp_all add: legalMove_def T_def run_def)
  have run: "run = drop sci S"
    using run_facts [of "T ! sp" sci] rne by (simp_all add: run_def S_def)
  have st1: "state g1 = (state g)\<lparr>tableau := T1, moves := moves (state g) + 1\<rparr>"
    by (simp add: g1_def afterMove_state T_def S_def D_def run_def A_def B_def T1_def)
  have hi1: "history g1 = history g @ [e]"
    by (simp add: g1_def afterMove_history e_def fl_def run_def S_def T_def)
  have inv1: "stateInv pileDealt (state g1)"
    unfolding g1_def using inv sel legal by (rule afterMove_inv)
  have piles1: "\<And>p. p \<in> set (tableau (state g1)) \<Longrightarrow>
      (\<forall>k. completeRun (cards p) k \<longrightarrow> k + 13 = length (cards p)) \<and> distinct (map cid (cards p))"
    using inv1 by (rule dealt_piles)
  have "history g1 \<noteq> []" "h_completedSequences (last (history g1)) = None"
    by (simp_all add: hi1 e_def)
  from check_restore [OF this piles1, of clock]
  have h2: "history g2 \<noteq> []" and b2: "butlast (history g2) = history g"
    and l2: "\<exists>X. last (history g2) = e\<lparr>h_completedSequences := X\<rparr>"
    and r2: "restoreSequences (state g2) (last (history g2)) = (completedSequences (state g), T1)"
    by (simp_all add: g2_def hi1 st1)
  from l2 obtain X where last2: "last (history g2) = e\<lparr>h_completedSequences := X\<rparr>" by blast
  from check_frame [of clock g1] obtain a b c hs where
    g2: "g2 = g1\<lparr>state := (state g1)\<lparr>tableau := a, completedSequences := b, gameWon := c\<rparr>,
               history := hs\<rparr>"
    unfolding g2_def by blast
  have dT: "distinct (map cid (concat (map cards T)))"
    using inv unfolding T_def by (rule stateInv_tableau_distinct)
  have dS: "distinct (map cid S)" unfolding S_def using dT sp by (rule distinct_pile)
  have "set (map cid D) \<inter> set (map cid S) = {}"
    unfolding D_def S_def using dT ne sp t by (intro distinct_piles) simp_all
  moreover have "set (map cid run) \<subseteq> set (map cid S)"
    unfolding run by (auto dest: in_set_dropD)
  ultimately have disj: "set (map cid D) \<inter> set (map cid run) = {}" by blast
  have T1t: "T1 ! t = B" using t by (simp add: T1_def)
  have T1sp: "T1 ! sp = A" using sp ne by (simp add: T1_def)
  have ex: "extractMoved (map cid (h_cards (last (history g2)))) (length (h_cards (last (history g2))))
           (cards (T1 ! nat (h_to (last (history g2))))) ([], []) = (run, D)"
    using extractMoved_target [OF disj] by (simp add: last2 e_def T1t B_def)
  have flipped_back: "(case fl of None \<Rightarrow> cards A @ run
              | Some fc \<Rightarrow> if fc_pileIndex fc = int sp then flipBack (fc_cardId fc) (cards A @ run)
                           else cards A @ run) = S"
  proof (cases "snd (flipTop (take sci S))")
    case None
    then show ?thesis by (simp add: fl_def A_def flipTop_None run)
  next
    case (Some i)
    have "distinct (map cid (take sci S))"
      using dS by (simp add: take_map [symmetric])
    then have "flipBack i (fst (flipTop (take sci S)) @ drop sci S) = take sci S @ drop sci S"
      using Some by (rule flipBack_flipTop)
    then show ?thesis using Some by (simp add: fl_def A_def run)
  qed
  have newT: "map (putBack (last (history g2)) run D) (zip T1 [0..<length T1]) = T"
  proof (rule nth_equalityI)
    show "length (map (putBack (last (history g2)) run D) (zip T1 [0..<length T1])) = length T"
      by (simp add: T1_def)
  next
    fix i
    assume "i < length (map (putBack (last (history g2)) run D) (zip T1 [0..<length T1]))"
    then have i: "i < length T1" by simp
    have "putBack (last (history g2)) run D (T1 ! i, i) = T ! i"
    proof -
      consider (target) "i = t" | (source) "i = sp" | (other) "i \<noteq> t" "i \<noteq> sp" by blast
      then show ?thesis
      proof cases
        case target
        then show ?thesis by (simp add: putBack_def last2 e_def D_def)
      next
        case source
        have "putBack (last (history g2)) run D (A, sp) = \<lparr>cards = S\<rparr>"
          using ne flipped_back by (simp add: putBack_def last2 e_def)
        then show ?thesis using source T1sp by (simp add: S_def)
      next
        case other
        then show ?thesis by (simp add: putBack_def last2 e_def T1_def)
      qed
    qed
    then show "map (putBack (last (history g2)) run D) (zip T1 [0..<length T1]) ! i = T ! i"
      using i by simp
  qed
  have "0 \<le> h_to (last (history g2))" "h_to (last (history g2)) < int (length T1)"
    "h_type (last (history g2)) = None"
    using t by (simp_all add: last2 e_def T1_def)
  from undo_move_unfold [OF h2 this(3) r2 this(1,2) ex]
  have "undo g2 = Inr (clearSelection (g2\<lparr>history := history g,
      state := (state g2)\<lparr>tableau := T, completedSequences := completedSequences (state g),
        gameWon := (length (completedSequences (state g)) = 8),
        moves := moves (state g2) - 1\<rparr>\<rparr>))"
    unfolding newT b2 .
  moreover have wonEq: "(length (completedSequences (state g)) = 8) = gameWon (state g)"
    using inv by (simp add: stateInv_def)
  moreover have g1eq: "g1 = g\<lparr>state := (state g)\<lparr>tableau := T1, moves := moves (state g) + 1\<rparr>,
      history := history g @ [e], selectedPile := None, selectedCardIndex := None\<rparr>"
    by (simp add: g1_def afterMove_def Let_def clearSelection_def T1_def A_def B_def S_def
        D_def run_def T_def e_def fl_def)
  ultimately show ?thesis
    unfolding g2_def [symmetric] g1_def [symmetric]
    by (simp add: g2 clearSelection_def T_def)
qed

section \<open>A legal deal and its undo\<close>

lemma deal_legal:
  assumes "canDeal g" and "length (tableau (state g)) \<le> length (stock (state g))"
  shows "deal clock g = Inr (checkCompletedSequences clock (afterDeal g))"
proof -
  have "10 \<le> length (stock (state g))" using assms(1) by (simp add: canDeal_def)
  then show ?thesis using assms by (simp add: deal_def dealFromStock_def afterDeal_def Let_def)
qed

lemma take_nth_upt: "n \<le> length xs \<Longrightarrow> map (\<lambda>i. xs ! i) [0..<n] = take n xs"
proof -
  assume n: "n \<le> length xs"
  have "take n xs = take n (map (\<lambda>i. xs ! i) [0..<length xs])" by (simp only: map_nth)
  also have "\<dots> = map (\<lambda>i. xs ! i) (take n [0..<length xs])" by (simp only: take_map)
  also have "\<dots> = map (\<lambda>i. xs ! i) [0..<n]" using n by simp
  finally show ?thesis by simp
qed

lemma dealt_ids:
  "k + length T \<le> length st \<Longrightarrow>
   cardIds (concat (map cards
      (map (\<lambda>(pile, index). \<lparr>cards = cards pile @ [(st ! index)\<lparr>faceUp := True\<rparr>]\<rparr>)
         (zip T [k..<k + length T])))) =
   cardIds (concat (map cards T)) + cardIds (take (length T) (drop k st))"
proof (induction T arbitrary: k)
  case Nil
  then show ?case by simp
next
  case (Cons p T)
  have k: "k < length st" and le: "Suc k + length T \<le> length st" using Cons.prems by simp_all
  have "k < k + length (p # T)" by simp
  then have "[k..<k + length (p # T)] = k # [Suc k..<k + length (p # T)]" by (rule upt_conv_Cons)
  moreover have "k + length (p # T) = Suc k + length T" by simp
  ultimately have upt: "[k..<k + length (p # T)] = k # [Suc k..<Suc k + length T]"
    by (simp only:)
  have tk: "take (length (p # T)) (drop k st) = st ! k # take (length T) (drop (Suc k) st)"
    using k by (simp add: Cons_nth_drop_Suc [symmetric])
  show ?case unfolding upt tk using Cons.IH [OF le] by simp
qed

lemma afterDeal_state:
  "state (afterDeal g) =
   (state g)\<lparr>tableau := map (\<lambda>(pile, index).
                               \<lparr>cards = cards pile @ [(stock (state g) ! index)\<lparr>faceUp := True\<rparr>]\<rparr>)
                          (zip (tableau (state g)) [0..<length (tableau (state g))]),
             stock := drop 10 (stock (state g)),
             moves := moves (state g) + 1\<rparr>"
  by (simp add: afterDeal_def clearSelection_def)

lemma descendingByOne_single: "descendingByOne [c]"
  by (simp add: descendingByOne_def)

lemma afterDeal_inv:
  assumes inv: "stateInv pileSettled (state g)" and can: "canDeal g"
  shows "stateInv pileDealt (state (afterDeal g))"
proof -
  define T where "T = tableau (state g)"
  define st where "st = stock (state g)"
  define T1 where "T1 = map (\<lambda>(pile, index). \<lparr>cards = cards pile @ [(st ! index)\<lparr>faceUp := True\<rparr>]\<rparr>)
                          (zip T [0..<length T])"
  have lenT: "length T = 10" using inv by (simp add: stateInv_def T_def)
  have ten: "10 \<le> length st" using can by (simp add: canDeal_def st_def)
  have s1: "state (afterDeal g) = (state g)\<lparr>tableau := T1, stock := drop 10 st,
      moves := moves (state g) + 1\<rparr>"
    by (simp add: afterDeal_state T1_def T_def st_def)
  have "cardIds (concat (map cards T1)) = cardIds (concat (map cards T)) + cardIds (take (length T) (drop 0 st))"
    unfolding T1_def using dealt_ids [of 0 T st] lenT ten by simp
  then have "cardIds (concat (map cards T1)) + cardIds (drop 10 st) =
      cardIds (concat (map cards T)) + (cardIds (take 10 st) + cardIds (drop 10 st))"
    using lenT by (simp add: add.assoc)
  then have "cardIds (allCards (state (afterDeal g))) = cardIds (allCards (state g))"
    by (simp add: s1 allCards_def cardIds_take_drop T_def st_def)
  moreover have "distinct (map cid (allCards (state g)))" using inv by (simp add: stateInv_def)
  ultimately have dist: "distinct (map cid (allCards (state (afterDeal g))))"
    by (rule distinct_ids_eq)
  have piles: "\<forall>p\<in>set T1. pileDealt p"
  proof
    fix p assume "p \<in> set T1"
    then obtain i where i: "i < length T" and p: "p = T1 ! i"
      by (auto simp: in_set_conv_nth T1_def)
    define c where "c = (st ! i)\<lparr>faceUp := True\<rparr>"
    have pc: "cards p = cards (T ! i) @ [c]" using i by (simp add: p T1_def c_def)
    have Ti: "pileSettled (T ! i)" using inv i by (simp add: stateInv_def T_def)
    have "sorted (map faceUp (cards (T ! i) @ [c]))"
      using Ti by (simp add: sorted_append pileSettled_def c_def)
    moreover have "\<And>j. \<not> completeRun (cards (T ! i)) j" using Ti by (simp add: pileSettled_def)
    then have "\<And>k. completeRun (cards (T ! i) @ [c]) k \<Longrightarrow> k + 13 = length (cards (T ! i) @ [c])"
      using descendingByOne_single by (rule run_on_top)
    ultimately show "pileDealt p" unfolding pileDealt_def pc by blast
  qed
  have "length (stock (state g)) mod 10 = 0" using inv by (simp add: stateInv_def)
  then have stk: "length (drop 10 st) mod 10 = 0" using ten unfolding st_def [symmetric]
    by (simp add: mod_eq_0_iff_dvd)
  have "length T1 = 10" using lenT by (simp add: T1_def)
  then show ?thesis
    unfolding stateInv_def using dist piles stk inv
    by (simp add: s1 stateInv_def)
qed

lemma undo_deal_unfold:
  assumes "history g \<noteq> []" and "h_type (last (history g)) = Some DealT"
    and "h_dealtCards (last (history g)) = Some dealt"
    and "restoreSequences (state g) (last (history g)) = (cs0, T1)"
  shows "undo g = Inr (clearSelection (g\<lparr>history := butlast (history g),
      state := (state g)\<lparr>
        tableau := map (\<lambda>pile. \<lparr>cards = butlast (cards pile)\<rparr>) T1,
        stock := concat dealt @ stock (state g),
        completedSequences := cs0,
        gameWon := (length cs0 = 8),
        moves := moves (state g) - 1\<rparr>\<rparr>))"
  using assms by (simp add: undo_def Let_def split_beta)

lemma deal_undo:
  assumes inv: "stateInv pileSettled (state g)" and can: "canDeal g"
  shows "undo (checkCompletedSequences clock (afterDeal g)) = Inr (clearSelection g)"
proof -
  define g1 where "g1 = afterDeal g"
  define g2 where "g2 = checkCompletedSequences clock g1"
  define T where "T = tableau (state g)"
  define st where "st = stock (state g)"
  define T1 where "T1 = map (\<lambda>(pile, index). \<lparr>cards = cards pile @ [(st ! index)\<lparr>faceUp := True\<rparr>]\<rparr>)
                          (zip T [0..<length T])"
  define e where "e = \<lparr>h_type = Some DealT, h_from = -1, h_to = -1, h_cards = [],
              h_flippedCard = None, h_dealtCards = Some (map (\<lambda>i. [st ! i]) [0..<10]),
              h_completedSequences = None\<rparr>"
  have ten: "10 \<le> length st" using can by (simp add: canDeal_def st_def)
  have g1eq: "g1 = g\<lparr>state := (state g)\<lparr>tableau := T1, stock := drop 10 st,
      moves := moves (state g) + 1\<rparr>,
      history := history g @ [e], selectedPile := None, selectedCardIndex := None\<rparr>"
    by (simp add: g1_def afterDeal_def clearSelection_def T1_def T_def st_def e_def)
  have inv1: "stateInv pileDealt (state g1)"
    unfolding g1_def using inv can by (rule afterDeal_inv)
  have piles1: "\<And>p. p \<in> set (tableau (state g1)) \<Longrightarrow>
      (\<forall>k. completeRun (cards p) k \<longrightarrow> k + 13 = length (cards p)) \<and> distinct (map cid (cards p))"
    using inv1 by (rule dealt_piles)
  have "history g1 \<noteq> []" "h_completedSequences (last (history g1)) = None"
    by (simp_all add: g1eq e_def)
  from check_restore [OF this piles1, of clock]
  have h2: "history g2 \<noteq> []" and b2: "butlast (history g2) = history g"
    and l2: "\<exists>X. last (history g2) = e\<lparr>h_completedSequences := X\<rparr>"
    and r2: "restoreSequences (state g2) (last (history g2)) = (completedSequences (state g), T1)"
    by (simp_all add: g2_def g1eq)
  from l2 obtain X where last2: "last (history g2) = e\<lparr>h_completedSequences := X\<rparr>" by blast
  from check_frame [of clock g1] obtain a b c hs where
    g2: "g2 = g1\<lparr>state := (state g1)\<lparr>tableau := a, completedSequences := b, gameWon := c\<rparr>,
               history := hs\<rparr>"
    unfolding g2_def by blast
  have ty: "h_type (last (history g2)) = Some DealT"
    "h_dealtCards (last (history g2)) = Some (map (\<lambda>i. [st ! i]) [0..<10])"
    by (simp_all add: last2 e_def)
  have newT: "map (\<lambda>pile. \<lparr>cards = butlast (cards pile)\<rparr>) T1 = T"
    by (rule nth_equalityI) (simp_all add: T1_def)
  have stk: "concat (map (\<lambda>i. [st ! i]) [0..<10]) @ stock (state g2) = st"
    using take_nth_upt [OF ten] by (simp add: g2 g1eq)
  from undo_deal_unfold [OF h2 ty r2]
  have "undo g2 = Inr (clearSelection (g2\<lparr>history := history g,
      state := (state g2)\<lparr>tableau := T, stock := st,
        completedSequences := completedSequences (state g),
        gameWon := (length (completedSequences (state g)) = 8),
        moves := moves (state g2) - 1\<rparr>\<rparr>))"
    unfolding newT b2 stk .
  moreover have wonEq: "(length (completedSequences (state g)) = 8) = gameWon (state g)"
    using inv by (simp add: stateInv_def)
  ultimately show ?thesis
    unfolding g2_def [symmetric] g1_def [symmetric]
    by (simp add: g2 g1eq clearSelection_def T_def st_def)
qed

section \<open>Every reachable store is well formed\<close>

lemma pushRanks_counters:
  "map (\<lambda>c. counterOf (cid c)) (fst (pushRanks ts su g rs)) = [g..<g + length rs] \<and>
   snd (pushRanks ts su g rs) = g + length rs"
proof (induction rs arbitrary: g)
  case Nil
  then show ?case by simp
next
  case (Cons r rs)
  have "g < Suc g + length rs" by simp
  then have "[g..<Suc g + length rs] = g # [Suc g..<Suc g + length rs]" by (rule upt_conv_Cons)
  then show ?case using Cons [of "Suc g"] by (simp add: split_beta)
qed

lemma pushSuits_counters:
  "map (\<lambda>c. counterOf (cid c)) (fst (pushSuits ts g sus)) = [g..<g + 13 * length sus]"
proof (induction sus arbitrary: g)
  case Nil
  then show ?case by simp
next
  case (Cons su sus)
  have l13: "length ranks = 13" by (simp add: ranks_def)
  have r: "map (\<lambda>c. counterOf (cid c)) (fst (pushRanks ts su g ranks)) = [g..<g + 13]"
    "snd (pushRanks ts su g ranks) = g + 13"
    using pushRanks_counters [of ts su g ranks] unfolding l13 by blast+
  define n where "n = 13 * length sus"
  have "[g..<g + 13 + n] = [g..<g + 13] @ [g + 13..<g + 13 + n]"
    by (rule upt_add_eq_append) simp
  moreover have "g + 13 * length (su # sus) = g + 13 + n" by (simp add: n_def)
  moreover have "map (\<lambda>c. counterOf (cid c)) (fst (pushSuits ts (g + 13) sus)) = [g + 13..<g + 13 + n]"
    unfolding n_def by (rule Cons)
  ultimately show ?case using r by (simp add: split_beta add.assoc)
qed

lemma createDeck_distinct: "distinct (map cid (createDeck d ts g))"
proof -
  have "distinct (map counterOf (map cid (createDeck d ts g)))"
    by (simp add: createDeck_def pushSuits_counters comp_def)
  then show ?thesis by (rule distinct_map [THEN iffD1, THEN conjunct1])
qed

lemma cid_unface: "map cid (map (\<lambda>c. c\<lparr>faceUp := False\<rparr>) cs) = map cid cs"
  by simp

lemma init_inv: "stateInv pileSettled (initializeGame d ts g rnd)"
proof -
  define deck where "deck = shuffleDeck rnd (createDeck d ts g)"
  define s where "s = layout d deck"
  have len: "length deck = 104" by (simp add: deck_def createDeck_length)
  have "cardIds deck = cardIds (createDeck d ts g)" by (simp add: cardIds_def deck_def)
  then have dd: "distinct (map cid deck)" using createDeck_distinct by (rule distinct_ids_eq)
  have "map cid (map (\<lambda>c. c\<lparr>faceUp := False\<rparr>) (concat (map cards (tableau s)))) =
      map cid (map (\<lambda>c. c\<lparr>faceUp := False\<rparr>) (take 54 deck))"
    unfolding s_def using layout_content [of deck d] len by simp
  then have "map cid (concat (map cards (tableau s))) = map cid (take 54 deck)"
    by (simp only: cid_unface)
  moreover have "map cid (take 54 deck) @ map cid (drop 54 deck) = map cid deck"
    by (metis append_take_drop_id map_append)
  ultimately have "map cid (allCards s) = map cid deck"
    by (simp add: allCards_def s_def layout_stock)
  then have dist: "distinct (map cid (allCards s))" using dd by simp
  have "length (map (\<lambda>p. length (cards p)) (tableau s)) =
      length [6, 6, 6, 6, 5, 5, 5, 5, 5, 5::nat]"
    unfolding s_def layout_lengths ..
  then have l10: "length (tableau s) = 10" by simp
  have fs: "list_all (\<lambda>f. sorted f \<and> length f < 13) (map (\<lambda>p. map faceUp (cards p)) (tableau s))"
    unfolding s_def layout_faces by simp
  have piles: "\<forall>p\<in>set (tableau s). pileSettled p"
  proof
    fix p assume "p \<in> set (tableau s)"
    then have "sorted (map faceUp (cards p)) \<and> length (map faceUp (cards p)) < 13"
      using fs by (auto simp: list_all_iff)
    then show "pileSettled p" by (auto simp: pileSettled_def completeRun_def)
  qed
  have rest: "completedSequences s = [] \<and> moves s = 0 \<and> \<not> gameWon s \<and> difficulty s = d"
    unfolding s_def by (rule layout_rest)
  have stk: "length (stock s) mod 10 = 0" by (simp add: s_def layout_stock len)
  have "stateInv pileSettled s"
    unfolding stateInv_def using l10 dist piles rest stk by simp
  then show ?thesis by (simp add: initializeGame_def s_def deck_def)
qed

lemma afterMove_fields [simp]:
  "selectedPile (afterMove g sp sci t) = None"
  "selectedCardIndex (afterMove g sp sci t) = None"
  "initialState (afterMove g sp sci t) = initialState g"
  "gameKey (afterMove g sp sci t) = gameKey g"
  "hint (afterMove g sp sci t) = hint g"
  by (simp_all add: afterMove_def Let_def clearSelection_def)

lemma afterDeal_fields [simp]:
  "selectedPile (afterDeal g) = None"
  "selectedCardIndex (afterDeal g) = None"
  "initialState (afterDeal g) = initialState g"
  "gameKey (afterDeal g) = gameKey g"
  "hint (afterDeal g) = hint g"
  by (simp_all add: afterDeal_def clearSelection_def)

lemma legalMove_selected:
  assumes "legalMove g t"
  obtains sp sci where "selectedPile g = Some sp" "selectedCardIndex g = Some sci"
  using assms by (auto simp: legalMove_def split: option.splits)

lemma stateInv_ten: "stateInv ok s \<Longrightarrow> length (tableau s) = 10"
  by (simp add: stateInv_def)

lemma canDeal_enough:
  "stateInv ok (state g) \<Longrightarrow> canDeal g \<Longrightarrow> length (tableau (state g)) \<le> length (stock (state g))"
  by (simp add: stateInv_def canDeal_def)

lemma played_inv:
  "played g \<Longrightarrow>
   stateInv pileSettled (state g) \<and> stateInv pileSettled (initialState g) \<and>
   selOK (state g) (selectedPile g) (selectedCardIndex g)"
proof (induction rule: played.induct)
  case (p_base s i k h)
  then show ?case by (simp add: selOK_def)
next
  case (p_select g a b)
  then show ?case by simp
next
  case (p_hint g h)
  then show ?case by simp
next
  case (p_move g t clock g')
  from p_move.hyps(2) obtain sp sci where
    s: "selectedPile g = Some sp" "selectedCardIndex g = Some sci"
    by (rule legalMove_selected)
  have g': "g' = checkCompletedSequences clock (afterMove g sp sci t)"
    using moveCards_legal [OF p_move.hyps(2) s, of clock] p_move.hyps(3) by simp
  have "stateInv pileDealt (state (afterMove g sp sci t))"
    using p_move.IH p_move.hyps(2) s by (intro afterMove_inv) simp_all
  then have "stateInv pileSettled (state g')" unfolding g' by (rule check_inv)
  then show ?case using p_move.IH by (simp add: g' selOK_def)
next
  case (p_deal g clock g')
  have inv: "stateInv pileSettled (state g)" using p_deal.IH by simp
  have g': "g' = checkCompletedSequences clock (afterDeal g)"
    using deal_legal [OF p_deal.hyps(2) canDeal_enough [OF inv p_deal.hyps(2)], of clock]
      p_deal.hyps(3) by simp
  have "stateInv pileDealt (state (afterDeal g))" using inv p_deal.hyps(2) by (rule afterDeal_inv)
  then have "stateInv pileSettled (state g')" unfolding g' by (rule check_inv)
  then show ?case using p_deal.IH by (simp add: g' selOK_def)
qed

lemma played_move_undo:
  assumes "played g" and "legalMove g t"
  shows "\<exists>g'. moveCards clock g t = Inr g' \<and> undo g' = Inr (clearSelection g) \<and>
              moves (state g') = moves (state g) + 1 \<and> stock (state g') = stock (state g)"
proof -
  from assms(2) obtain sp sci where
    s: "selectedPile g = Some sp" "selectedCardIndex g = Some sci"
    by (rule legalMove_selected)
  note inv = played_inv [OF assms(1)]
  have m: "moveCards clock g t = Inr (checkCompletedSequences clock (afterMove g sp sci t))"
    using assms(2) s by (rule moveCards_legal)
  have u: "undo (checkCompletedSequences clock (afterMove g sp sci t)) = Inr (clearSelection g)"
    using inv assms(2) s by (intro move_undo) simp_all
  show ?thesis using m u by (simp add: afterMove_state)
qed

lemma played_deal_undo:
  assumes "played g" and "canDeal g"
  shows "\<exists>g'. deal clock g = Inr g' \<and> undo g' = Inr (clearSelection g) \<and>
              moves (state g') = moves (state g) + 1 \<and>
              stock (state g') = drop 10 (stock (state g))"
proof -
  have inv: "stateInv pileSettled (state g)" using played_inv [OF assms(1)] by simp
  have d: "deal clock g = Inr (checkCompletedSequences clock (afterDeal g))"
    using assms(2) canDeal_enough [OF inv assms(2)] by (rule deal_legal)
  have u: "undo (checkCompletedSequences clock (afterDeal g)) = Inr (clearSelection g)"
    using inv assms(2) by (rule deal_undo)
  show ?thesis using d u by (simp add: afterDeal_state)
qed

lemma clearSelection_played: "played g \<Longrightarrow> played (clearSelection g)"
  using p_select [of g None None] by (simp add: selOK_def clearSelection_def)

lemma undo_select:
  "history g \<noteq> [] \<Longrightarrow> undo (g\<lparr>selectedPile := a, selectedCardIndex := b\<rparr>) = undo g"
  by (simp add: undo_def Let_def split_beta clearSelection_def
      split: option.split HistoryType.split)

lemma undo_hint:
  "undo (g\<lparr>hint := h\<rparr>) = (case undo g of Inl e \<Rightarrow> Inl e | Inr g0 \<Rightarrow> Inr (g0\<lparr>hint := h\<rparr>))"
  by (simp add: undo_def Let_def split_beta clearSelection_def
      split: option.split HistoryType.split)

lemma played_undo:
  "played g \<Longrightarrow> history g \<noteq> [] \<Longrightarrow> \<exists>g0. undo g = Inr g0 \<and> played g0"
proof (induction rule: played.induct)
  case (p_base s i k h)
  then show ?case by simp
next
  case (p_select g a b)
  then show ?case by (simp add: undo_select)
next
  case (p_hint g h)
  then obtain g0 where "undo g = Inr g0" "played g0" by auto
  then show ?case using played.p_hint [of g0 h] by (simp add: undo_hint)
next
  case (p_move g t clock g')
  from played_move_undo [OF p_move.hyps(1,2), of clock]
  have "undo g' = Inr (clearSelection g)" using p_move.hyps(3) by auto
  then show ?case using clearSelection_played [OF p_move.hyps(1)] by blast
next
  case (p_deal g clock g')
  from played_deal_undo [OF p_deal.hyps(1,2), of clock]
  have "undo g' = Inr (clearSelection g)" using p_deal.hyps(3) by auto
  then show ?case using clearSelection_played [OF p_deal.hyps(1)] by blast
qed

lemma moveCards_not_legal:
  assumes "\<not> legalMove g t"
  shows "moveCards clock g t = Inr g \<or> moveCards clock g t = Inr (clearSelection g) \<or>
         moveCards clock g t = Inl TypeError"
proof (cases "selectedPile g")
  case None
  then show ?thesis by (simp add: moveCards_def)
next
  case sp: (Some sp)
  show ?thesis
  proof (cases "selectedCardIndex g")
    case None
    then show ?thesis using sp by (simp add: moveCards_def)
  next
    case sci: (Some sci)
    consider "sp = t" | "sp \<noteq> t" "\<not> sp < length (tableau (state g))"
      | "sp \<noteq> t" "sp < length (tableau (state g))"
        "getMovableCards (tableau (state g) ! sp) (int sci) = []"
      | "sp \<noteq> t" "sp < length (tableau (state g))"
        "getMovableCards (tableau (state g) ! sp) (int sci) \<noteq> []"
        "\<not> t < length (tableau (state g))"
      | "sp \<noteq> t" "sp < length (tableau (state g))"
        "getMovableCards (tableau (state g) ! sp) (int sci) \<noteq> []"
        "t < length (tableau (state g))"
        "\<not> canPlaceCard (hd (getMovableCards (tableau (state g) ! sp) (int sci)))
            (topCard (tableau (state g) ! t))"
      using assms sp sci by (auto simp: legalMove_def)
    then show ?thesis
    proof cases
      case 1
      then show ?thesis using sp sci by (simp add: moveCards_def)
    next
      case 2
      then show ?thesis using sp sci by (simp add: moveCards_def)
    next
      case 3
      then show ?thesis using sp sci by (simp add: moveCards_def)
    next
      case 4
      then show ?thesis using sp sci by (simp add: moveCards_def)
    next
      case 5
      then show ?thesis using sp sci by (simp add: moveCards_def)
    qed
  qed
qed

lemma moveCards_cases:
  assumes "moveCards clock g t = Inr g'"
  shows "legalMove g t \<or> g' = g \<or> g' = clearSelection g"
  using moveCards_not_legal [of g t clock] assms by auto

lemma moveCards_played:
  assumes "played g" and "moveCards clock g t = Inr g'"
  shows "played g'"
  using moveCards_cases [OF assms(2)] assms clearSelection_played p_move by blast

lemma deal_played:
  assumes "played g" and "deal clock g = Inr g'"
  shows "played g'"
proof (cases "canDeal g")
  case True
  show ?thesis using assms(1) True assms(2) by (rule p_deal)
next
  case False
  then show ?thesis using assms by (simp add: deal_def)
qed

lemma selectCards_cases:
  assumes "selectCards clock g p c skip = Inr g'"
  shows "g' = g \<or>
         (p < length (tableau (state g)) \<and> c < length (cards (tableau (state g) ! p)) \<and>
          faceUp (cards (tableau (state g) ! p) ! c) \<and>
          (g' = g\<lparr>selectedPile := Some p, selectedCardIndex := Some c\<rparr> \<or>
           (\<exists>b. moveCards clock (g\<lparr>selectedPile := Some p, selectedCardIndex := Some c\<rparr>) b = Inr g')))"
proof -
  have p: "p < length (tableau (state g))"
    using assms by (simp add: selectCards_def split: if_splits)
  then have c: "c < length (cards (tableau (state g) ! p))"
    using assms by (simp add: selectCards_def Let_def split: if_splits)
  show ?thesis
  proof (cases "faceUp (cards (tableau (state g) ! p) ! c) \<and>
      getMovableCards (tableau (state g) ! p) (int c) \<noteq> []")
    case False
    have "g' = g"
    proof (cases "faceUp (cards (tableau (state g) ! p) ! c)")
      case False
      then show ?thesis using assms p c by (simp add: selectCards_def Let_def)
    next
      case True
      then have "getMovableCards (tableau (state g) ! p) (int c) = []" using False by simp
      then show ?thesis using assms p c True by (simp add: selectCards_def Let_def)
    qed
    then show ?thesis by simp
  next
    case True
    show ?thesis
    proof (cases skip)
      case True
      then show ?thesis using assms p c \<open>faceUp _ \<and> _\<close> by (simp add: selectCards_def Let_def)
    next
      case False
      show ?thesis
      proof (cases "findBestMove g p c")
        case (Inl e)
        then show ?thesis using assms p c True False by (simp add: selectCards_def Let_def)
      next
        case (Inr best)
        show ?thesis
        proof (cases best)
          case None
          then show ?thesis using assms p c True False Inr by (simp add: selectCards_def Let_def)
        next
          case (Some b)
          show ?thesis
          proof (cases "b = p")
            case True
            then show ?thesis using assms p c \<open>faceUp _ \<and> _\<close> False Inr Some
              by (simp add: selectCards_def Let_def)
          next
            case ne: False
            have "moveCards clock (g\<lparr>selectedPile := Some p, selectedCardIndex := Some c\<rparr>) b = Inr g'"
              using assms p c True False Inr Some ne by (simp add: selectCards_def Let_def)
            then show ?thesis using p c True by blast
          qed
        qed
      qed
    qed
  qed
qed

lemma selectCards_played:
  assumes "played g" and "selectCards clock g p c skip = Inr g'"
  shows "played g'"
proof -
  from selectCards_cases [OF assms(2)]
  consider "g' = g"
    | "selOK (state g) (Some p) (Some c)" "g' = g\<lparr>selectedPile := Some p, selectedCardIndex := Some c\<rparr>"
    | b where "selOK (state g) (Some p) (Some c)"
        "moveCards clock (g\<lparr>selectedPile := Some p, selectedCardIndex := Some c\<rparr>) b = Inr g'"
    by (auto simp: selOK_def)
  then show ?thesis
  proof cases
    case 1
    then show ?thesis using assms(1) by simp
  next
    case 2
    then show ?thesis using p_select [OF assms(1), of "Some p" "Some c"] by simp
  next
    case 3
    have "played (g\<lparr>selectedPile := Some p, selectedCardIndex := Some c\<rparr>)"
      using assms(1) 3(1) by (rule p_select)
    then show ?thesis using 3(2) by (rule moveCards_played)
  qed
qed

lemma showHint_hint: "\<exists>h. showHint g = g\<lparr>hint := h\<rparr>"
  by (auto simp: showHint_def Let_def)

lemma reachable_played: "reachable g \<Longrightarrow> played g"
proof (induction rule: reachable.induct)
  case (r_new ts gid rnd now ts' gid' rnd')
  show ?case unfolding newStore_def by (rule p_base) (rule init_inv)+
next
  case (r_newGame g diffOpt ts gid rnd now)
  define st where "st = initializeGame (case diffOpt of Some d \<Rightarrow> d | None \<Rightarrow> difficulty (state g)) ts gid rnd"
  have "stateInv pileSettled st" unfolding st_def by (rule init_inv)
  then have "played \<lparr>state = st, history = [], selectedPile = None, selectedCardIndex = None,
             gameKey = now, initialState = st, hint = None\<rparr>"
    by (intro p_base)
  moreover have "newGame g diffOpt ts gid rnd now =
      \<lparr>state = st, history = [], selectedPile = None, selectedCardIndex = None,
             gameKey = now, initialState = st, hint = None\<rparr>"
    by (intro Game.equality) (simp_all add: newGame_def Let_def st_def)
  ultimately show ?case by simp
next
  case (r_restartGame g now)
  have "stateInv pileSettled (initialState g)" using played_inv [OF r_restartGame.IH] by simp
  then have "played \<lparr>state = initialState g, history = [], selectedPile = None,
             selectedCardIndex = None, gameKey = now, initialState = initialState g, hint = hint g\<rparr>"
    by (intro p_base)
  moreover have "restartGame g now =
      \<lparr>state = initialState g, history = [], selectedPile = None,
             selectedCardIndex = None, gameKey = now, initialState = initialState g, hint = hint g\<rparr>"
    by (intro Game.equality) (simp_all add: restartGame_def)
  ultimately show ?case by simp
next
  case (r_selectCards g clock pileIndex cardIdx skip g')
  then show ?case using selectCards_played by blast
next
  case (r_moveCards g clock targetPileIndex g')
  then show ?case using moveCards_played by blast
next
  case (r_deal g clock g')
  then show ?case using deal_played by blast
next
  case (r_undo g g')
  show ?case
  proof (cases "history g = []")
    case True
    then show ?thesis using r_undo by (simp add: undo_def)
  next
    case False
    then show ?thesis using played_undo [OF r_undo.IH] r_undo.hyps(2) by auto
  qed
next
  case (r_showHint g)
  then show ?case using showHint_hint [of g] p_hint by metis
next
  case (r_clearHint g)
  show ?case unfolding clearHint_def using r_clearHint.IH by (rule p_hint)
qed

section \<open>Claims about reachable stores\<close>

lemma moveCards_stock:
  assumes "moveCards clock g t = Inr g'"
  shows "stock (state g') = stock (state g)"
proof -
  consider "legalMove g t" | "g' = g" | "g' = clearSelection g"
    using moveCards_cases [OF assms] by blast
  then show ?thesis
  proof cases
    case 1
    then obtain sp sci where s: "selectedPile g = Some sp" "selectedCardIndex g = Some sci"
      by (rule legalMove_selected)
    have "g' = checkCompletedSequences clock (afterMove g sp sci t)"
      using moveCards_legal [OF 1 s, of clock] assms by simp
    then show ?thesis by (simp add: afterMove_state)
  next
    case 2
    then show ?thesis by simp
  next
    case 3
    then show ?thesis by (simp add: clearSelection_def)
  qed
qed

lemma selectCards_stock:
  assumes "selectCards clock g p c skip = Inr g'"
  shows "stock (state g') = stock (state g)"
  using selectCards_cases [OF assms] moveCards_stock
  by (metis (no_types, lifting) Game.select_convs(1) Game.surjective Game.update_convs(3,4))

lemma firstStore_state: "state firstStore = layout Easy (createDeck Easy 0 0)"
  by (simp add: firstStore_def newStore_def initializeGame_def shuffleDeck_id)

lemma firstStore_reachable: "reachable firstStore"
  unfolding firstStore_def by (rule r_new)

lemma firstStore_canDeal: "canDeal firstStore"
proof -
  have "list_all (\<lambda>n. 0 < n) (map (\<lambda>p. length (cards p)) (tableau (state firstStore)))"
    unfolding firstStore_state layout_lengths by simp
  then have "list_all (\<lambda>pile. length (cards pile) > 0) (tableau (state firstStore))"
    by (simp add: list.pred_map comp_def)
  moreover have "length (stock (state firstStore)) = 50"
    by (simp add: firstStore_state layout_stock createDeck_length)
  ultimately show ?thesis by (simp add: canDeal_def)
qed

lemma firstStore_piles:
  "length (tableau (state firstStore)) = 10"
  "cards (tableau (state firstStore) ! 0) =
     [\<lparr>cid = CardId 0 Spades RA 0, suit = Spades, rank = RA, faceUp = False\<rparr>,
      \<lparr>cid = CardId 0 Spades R2 1, suit = Spades, rank = R2, faceUp = False\<rparr>,
      \<lparr>cid = CardId 0 Spades R3 2, suit = Spades, rank = R3, faceUp = False\<rparr>,
      \<lparr>cid = CardId 0 Spades R4 3, suit = Spades, rank = R4, faceUp = False\<rparr>,
      \<lparr>cid = CardId 0 Spades R5 4, suit = Spades, rank = R5, faceUp = False\<rparr>,
      \<lparr>cid = CardId 0 Spades R6 5, suit = Spades, rank = R6, faceUp = True\<rparr>]"
  "cards (tableau (state firstStore) ! 2) =
     [\<lparr>cid = CardId 0 Spades RK 12, suit = Spades, rank = RK, faceUp = False\<rparr>,
      \<lparr>cid = CardId 0 Spades RA 13, suit = Spades, rank = RA, faceUp = False\<rparr>,
      \<lparr>cid = CardId 0 Spades R2 14, suit = Spades, rank = R2, faceUp = False\<rparr>,
      \<lparr>cid = CardId 0 Spades R3 15, suit = Spades, rank = R3, faceUp = False\<rparr>,
      \<lparr>cid = CardId 0 Spades R4 16, suit = Spades, rank = R4, faceUp = False\<rparr>,
      \<lparr>cid = CardId 0 Spades R5 17, suit = Spades, rank = R5, faceUp = True\<rparr>]"
  by (simp_all add: firstStore_state layout_def createDeck_def ranks_def numCards_def
      split_beta numeral_eq_Suc)

lemma fiveSelected_select: "selectCards (\<lambda>i. 0) firstStore 2 5 True = Inr fiveSelected"
  by (simp add: selectCards_def Let_def firstStore_piles getMovableCards_def fiveSelected_def)

lemma fiveSelected_reachable: "reachable fiveSelected"
  using firstStore_reachable fiveSelected_select by (rule r_selectCards)

lemma fiveSelected_legal: "legalMove fiveSelected 0"
  by (simp add: legalMove_def fiveSelected_def firstStore_piles getMovableCards_def
      canPlaceCard_def topCard_def)

text \<open>
  C1. In every reachable store, a move that \<open>moveCards\<close> carries out, and a deal that
  \<open>canDeal\<close> allows, followed by \<open>undo\<close>, gives back the store as it was, with the selection
  cleared: the same game state (tableau with every card and its orientation, stock,
  completed sequences, \<open>gameWon\<close>, \<open>moves\<close>, difficulty) and the same history. The operation
  itself adds 1 to \<open>moves\<close>. A call of \<open>moveCards\<close> that is no such move leaves the state
  as it is.
\<close>

theorem move_deal_undo_roundtrip:
  assumes "reachable g"
  shows "(legalMove g t \<longrightarrow>
            (\<exists>g'. moveCards clock g t = Inr g' \<and> undo g' = Inr (clearSelection g) \<and>
                  moves (state g') = moves (state g) + 1)) \<and>
         (canDeal g \<longrightarrow>
            (\<exists>g'. deal clock g = Inr g' \<and> undo g' = Inr (clearSelection g) \<and>
                  moves (state g') = moves (state g) + 1)) \<and>
         (moveCards clock g t = Inr g'' \<longrightarrow> legalMove g t \<or> state g'' = state g) \<and>
         state (clearSelection g) = state g \<and>
         history (clearSelection g) = history g"
proof -
  have p: "played g" using assms by (rule reachable_played)
  have "moveCards clock g t = Inr g'' \<longrightarrow> legalMove g t \<or> state g'' = state g"
    using moveCards_cases [of clock g t g''] by (auto simp: clearSelection_def)
  then show ?thesis
    using played_move_undo [OF p, of t clock] played_deal_undo [OF p, of clock]
    by (auto simp: clearSelection_def)
qed

theorem move_deal_undo_roundtrip_witness:
  "reachable fiveSelected \<and> legalMove fiveSelected 0 \<and>
   (\<exists>g'. moveCards (\<lambda>i. 0) fiveSelected 0 = Inr g' \<and>
         undo g' = Inr (clearSelection fiveSelected) \<and> moves (state g') = 1) \<and>
   reachable firstStore \<and> canDeal firstStore \<and>
   (\<exists>g'. deal (\<lambda>i. 0) firstStore = Inr g' \<and> undo g' = Inr (clearSelection firstStore) \<and>
         moves (state g') = 1)"
proof -
  have m0: "moves (state fiveSelected) = 0" "moves (state firstStore) = 0"
    using layout_rest [of Easy "createDeck Easy 0 0"]
    by (simp_all add: fiveSelected_def firstStore_state)
  have "\<exists>g'. moveCards (\<lambda>i. 0) fiveSelected 0 = Inr g' \<and>
         undo g' = Inr (clearSelection fiveSelected) \<and>
         moves (state g') = moves (state fiveSelected) + 1"
    using move_deal_undo_roundtrip [OF fiveSelected_reachable, of 0 "\<lambda>i. 0"] fiveSelected_legal
    by blast
  moreover have "\<exists>g'. deal (\<lambda>i. 0) firstStore = Inr g' \<and>
         undo g' = Inr (clearSelection firstStore) \<and>
         moves (state g') = moves (state firstStore) + 1"
    using move_deal_undo_roundtrip [OF firstStore_reachable, of 0 "\<lambda>i. 0"] firstStore_canDeal
    by blast
  ultimately show ?thesis
    using m0 fiveSelected_reachable fiveSelected_legal firstStore_reachable firstStore_canDeal
    by simp
qed

text \<open>
  C8. In every reachable store the length of the stock is a multiple of 10. A new game
  has 50 cards in the stock; \<open>moveCards\<close> and \<open>selectCards\<close> leave the stock as it is; a deal
  that \<open>canDeal\<close> allows removes the first 10 cards, and undoing it gives the stock back; a
  deal that \<open>canDeal\<close> forbids changes nothing.
\<close>

theorem stock_multiple_of_ten:
  assumes "reachable g"
  shows "length (stock (state g)) mod 10 = 0 \<and>
         length (stock (state (newGame g diffOpt ts gid rnd now))) = 50 \<and>
         (moveCards clock g t = Inr g' \<longrightarrow> stock (state g') = stock (state g)) \<and>
         (selectCards clock g p c skip = Inr g'' \<longrightarrow> stock (state g'') = stock (state g)) \<and>
         (canDeal g \<longrightarrow>
            (\<exists>g1. deal clock g = Inr g1 \<and> stock (state g1) = drop 10 (stock (state g)) \<and>
                  (\<exists>g2. undo g1 = Inr g2 \<and> stock (state g2) = stock (state g)))) \<and>
         (\<not> canDeal g \<longrightarrow> deal clock g = Inr g)"
proof -
  have pl: "played g" using assms by (rule reachable_played)
  have a: "length (stock (state g)) mod 10 = 0"
    using played_inv [OF pl] by (simp add: stateInv_def)
  have b: "length (stock (state (newGame g diffOpt ts gid rnd now))) = 50"
    by (simp add: newGame_def Let_def initializeGame_def layout_stock createDeck_length)
  have c: "canDeal g \<longrightarrow>
            (\<exists>g1. deal clock g = Inr g1 \<and> stock (state g1) = drop 10 (stock (state g)) \<and>
                  (\<exists>g2. undo g1 = Inr g2 \<and> stock (state g2) = stock (state g)))"
    using played_deal_undo [OF pl, of clock] by (auto simp: clearSelection_def)
  show ?thesis
    using a b c moveCards_stock [of clock g t g'] selectCards_stock [of clock g p c skip g'']
      deal_noop [of g clock]
    by blast
qed

theorem stock_multiple_of_ten_witness:
  "reachable firstStore \<and> length (stock (state firstStore)) = 50 \<and>
   length (stock (state firstStore)) mod 10 = 0 \<and>
   moveCards (\<lambda>i. 0) firstStore 0 = Inr firstStore \<and>
   selectCards (\<lambda>i. 0) firstStore 2 5 True = Inr fiveSelected \<and>
   stock (state fiveSelected) = stock (state firstStore) \<and>
   canDeal firstStore \<and>
   (\<exists>g1. deal (\<lambda>i. 0) firstStore = Inr g1 \<and> length (stock (state g1)) = 40 \<and>
         (\<exists>g2. undo g1 = Inr g2 \<and> length (stock (state g2)) = 50))"
proof -
  note t = stock_multiple_of_ten [OF firstStore_reachable, of None 0 0 "\<lambda>i. i" 0 "\<lambda>i. 0" 0
      firstStore 2 5 True fiveSelected]
  have l: "length (stock (state firstStore)) = 50"
    by (simp add: firstStore_state layout_stock createDeck_length)
  have m: "moveCards (\<lambda>i. 0) firstStore 0 = Inr firstStore"
    by (simp add: moveCards_def firstStore_def newStore_def)
  have "stock (state firstStore) = stock (state firstStore)" using t m by blast
  have "length (stock (state firstStore)) mod 10 = 0" using t by blast
  moreover have "stock (state fiveSelected) = stock (state firstStore)"
    using t fiveSelected_select by blast
  moreover have "\<exists>g1. deal (\<lambda>i. 0) firstStore = Inr g1 \<and>
      stock (state g1) = drop 10 (stock (state firstStore)) \<and>
      (\<exists>g2. undo g1 = Inr g2 \<and> stock (state g2) = stock (state firstStore))"
    using t firstStore_canDeal by blast
  then have "\<exists>g1. deal (\<lambda>i. 0) firstStore = Inr g1 \<and> length (stock (state g1)) = 40 \<and>
         (\<exists>g2. undo g1 = Inr g2 \<and> length (stock (state g2)) = 50)"
    using l by auto
  ultimately show ?thesis
    using firstStore_reachable l m fiveSelected_select firstStore_canDeal by blast
qed

lemma moveCards_not_legal_in_range:
  assumes "\<not> legalMove g t" and "t < length (tableau (state g))"
    and "\<And>sp. selectedPile g = Some sp \<Longrightarrow> sp < length (tableau (state g))"
  shows "moveCards clock g t = Inr g \<or> moveCards clock g t = Inr (clearSelection g)"
proof (cases "selectedPile g")
  case None
  then show ?thesis by (simp add: moveCards_def)
next
  case sp: (Some sp)
  have r: "sp < length (tableau (state g))" using sp by (rule assms(3))
  show ?thesis
  proof (cases "selectedCardIndex g")
    case None
    then show ?thesis using sp by (simp add: moveCards_def)
  next
    case sci: (Some sci)
    consider "sp = t"
      | "sp \<noteq> t" "getMovableCards (tableau (state g) ! sp) (int sci) = []"
      | "sp \<noteq> t" "getMovableCards (tableau (state g) ! sp) (int sci) \<noteq> []"
        "\<not> canPlaceCard (hd (getMovableCards (tableau (state g) ! sp) (int sci)))
            (topCard (tableau (state g) ! t))"
      using assms(1,2) r sp sci by (auto simp: legalMove_def)
    then show ?thesis
    proof cases
      case 1
      then show ?thesis using sp sci by (simp add: moveCards_def)
    next
      case 2
      then show ?thesis using sp sci r by (simp add: moveCards_def)
    next
      case 3
      then show ?thesis using sp sci r assms(2) by (simp add: moveCards_def)
    qed
  qed
qed

lemma played_selection_in_range:
  assumes "played g" and "selectedPile g = Some sp"
  shows "sp < length (tableau (state g))"
  using played_inv [OF assms(1)] assms(2)
  by (auto simp: selOK_def split: option.splits)

lemma played_returns:
  assumes "played g"
  shows "(\<exists>g'. undo g = Inr g') \<and> (\<exists>g'. deal clock g = Inr g') \<and>
         (t < length (tableau (state g)) \<longrightarrow> (\<exists>g'. moveCards clock g t = Inr g'))"
proof -
  have u: "\<exists>g'. undo g = Inr g'"
    using played_undo [OF assms] undo_empty [of g] by (cases "history g = []") auto
  have d: "\<exists>g'. deal clock g = Inr g'"
    using played_deal_undo [OF assms, of clock] deal_noop [of g clock] by (cases "canDeal g") auto
  have m: "t < length (tableau (state g)) \<longrightarrow> (\<exists>g'. moveCards clock g t = Inr g')"
  proof (cases "legalMove g t")
    case True
    then show ?thesis using played_move_undo [OF assms, of t clock] by blast
  next
    case False
    show ?thesis
    proof
      assume "t < length (tableau (state g))"
      with False have "moveCards clock g t = Inr g \<or> moveCards clock g t = Inr (clearSelection g)"
        using played_selection_in_range [OF assms] by (intro moveCards_not_legal_in_range)
      then show "\<exists>g'. moveCards clock g t = Inr g'" by blast
    qed
  qed
  show ?thesis using u d m by blast
qed

lemma played_piles_sorted:
  assumes "played g" and "pile \<in> set (tableau (state g))"
  shows "sorted (map faceUp (cards pile))"
  using played_inv [OF assms(1)] assms(2) by (simp add: stateInv_def pileSettled_def)

text \<open>
  C4, as the specification words it, fails: the run returned is not made of face-up cards
  only. In \<open>hiddenKing\<close> the king is face down; the three cards descend by one rank, and the
  function returns all three, the face-down king first, where the face-up cards from index
  0 are the queen and the jack, themselves a chain.
\<close>

theorem getMovableCards_face_down_counterexample:
  "getMovableCards hiddenKing 0 = cards hiddenKing \<and>
   \<not> faceUp (hd (getMovableCards hiddenKing 0)) \<and>
   \<not> list_all faceUp (getMovableCards hiddenKing 0) \<and>
   descendingByOne (filter faceUp (sliceFrom 0 (cards hiddenKing))) \<and>
   getMovableCards hiddenKing 0 \<noteq> filter faceUp (sliceFrom 0 (cards hiddenKing))"
proof -
  have a: "getMovableCards hiddenKing 0 = cards hiddenKing"
    by (simp add: getMovableCards_def hiddenKing_def mkCard_def)
  have b: "filter faceUp (sliceFrom 0 (cards hiddenKing)) =
      [mkCard 1 Hearts RQ True, mkCard 2 Spades RJ True]"
    by (simp add: hiddenKing_def mkCard_def)
  have c: "descendingByOne [mkCard 1 Hearts RQ True, mkCard 2 Spades RJ True]"
    unfolding descendingLoop_iff [symmetric] by (simp add: mkCard_def)
  have d: "\<not> faceUp (hd (cards hiddenKing))" "\<not> list_all faceUp (cards hiddenKing)"
      "length (cards hiddenKing) = 3"
    by (simp_all add: hiddenKing_def mkCard_def)
  have "getMovableCards hiddenKing 0 \<noteq> filter faceUp (sliceFrom 0 (cards hiddenKing))"
    using a b d(3) by (metis length_Cons list.size(3) numeral_3_eq_3 n_not_Suc_n)
  then show ?thesis using a b c d by simp
qed

text \<open>
  C4. \<open>getMovableCards(pile, startIndex)\<close> returns the cards from \<open>startIndex\<close> to the top of
  the pile, face up or face down, if and only if they form a chain that descends by one
  rank at every step, read from the bottom of the run to its top, whatever their suits;
  otherwise it returns the empty run. The function does not look at \<open>faceUp\<close>; the cards it
  returns are face up whenever the card at \<open>startIndex\<close> is face up and no face-down card
  lies above a face-up one, and so they are for every face-up card of every pile of a
  reachable store.
\<close>

theorem getMovableCards_chain:
  "getMovableCards pile i =
     (if descendingByOne (sliceFrom i (cards pile)) then sliceFrom i (cards pile) else []) \<and>
   (getMovableCards pile i = sliceFrom i (cards pile)) = descendingByOne (sliceFrom i (cards pile)) \<and>
   sliceFrom (int n) (cards pile) = drop n (cards pile) \<and>
   (sorted (map faceUp (cards pile)) \<and> n < length (cards pile) \<and> faceUp (cards pile ! n) \<longrightarrow>
      list_all faceUp (getMovableCards pile (int n))) \<and>
   (reachable g \<and> pile \<in> set (tableau (state g)) \<and> n < length (cards pile) \<and>
    faceUp (cards pile ! n) \<longrightarrow> list_all faceUp (getMovableCards pile (int n)))"
proof -
  have a: "getMovableCards pile i =
     (if descendingByOne (sliceFrom i (cards pile)) then sliceFrom i (cards pile) else [])"
    by (simp add: getMovableCards_def Let_def descendingLoop_iff)
  have "descendingByOne ([] :: Card list)" by (simp add: descendingByOne_def)
  then have b: "(getMovableCards pile i = sliceFrom i (cards pile)) =
      descendingByOne (sliceFrom i (cards pile))"
    using a by (metis (full_types))
  have c: "sorted (map faceUp (cards pile)) \<and> n < length (cards pile) \<and> faceUp (cards pile ! n) \<longrightarrow>
      list_all faceUp (getMovableCards pile (int n))"
    using faceUp_suffix [of "cards pile" n] by (simp add: getMovableCards_def Let_def)
  have d: "reachable g \<and> pile \<in> set (tableau (state g)) \<and> n < length (cards pile) \<and>
      faceUp (cards pile ! n) \<longrightarrow> list_all faceUp (getMovableCards pile (int n))"
    using c played_piles_sorted [OF reachable_played, of g pile] by blast
  show ?thesis using a b c d by simp
qed

theorem getMovableCards_chain_witness:
  "descendingByOne (cards mixedRun) \<and> sorted (map faceUp (cards mixedRun)) \<and>
   getMovableCards mixedRun 0 = cards mixedRun \<and>
   list_all faceUp (getMovableCards mixedRun 0) \<and>
   map suit (getMovableCards mixedRun 0) = [Spades, Hearts, Spades] \<and>
   reachable firstStore \<and> faceUp (cards (tableau (state firstStore) ! 2) ! 5) \<and>
   list_all faceUp (getMovableCards (tableau (state firstStore) ! 2) 5)"
proof -
  note t = getMovableCards_chain [of mixedRun 0 0 firstStore]
  have d: "descendingByOne (cards mixedRun)"
    unfolding descendingLoop_iff [symmetric] by (simp add: mixedRun_def mkCard_def)
  have s: "sorted (map faceUp (cards mixedRun)) \<and> 0 < length (cards mixedRun) \<and>
      faceUp (cards mixedRun ! 0)"
    by (simp add: mixedRun_def mkCard_def)
  have z: "sliceFrom 0 (cards mixedRun) = cards mixedRun"
    using t by simp
  have "(getMovableCards mixedRun 0 = sliceFrom 0 (cards mixedRun)) =
      descendingByOne (sliceFrom 0 (cards mixedRun))"
    using t by blast
  then have m: "getMovableCards mixedRun 0 = cards mixedRun"
    unfolding z using d by blast
  have "sorted (map faceUp (cards mixedRun)) \<and> 0 < length (cards mixedRun) \<and>
      faceUp (cards mixedRun ! 0) \<longrightarrow> list_all faceUp (getMovableCards mixedRun (int 0))"
    using t by blast
  then have f: "list_all faceUp (getMovableCards mixedRun 0)"
    using s by simp
  have su: "map suit (cards mixedRun) = [Spades, Hearts, Spades]"
    by (simp add: mixedRun_def mkCard_def)
  define p where "p = tableau (state firstStore) ! 2"
  have mem: "p \<in> set (tableau (state firstStore))"
    unfolding p_def by (rule nth_mem) (simp add: firstStore_piles)
  have up: "5 < length (cards p) \<and> faceUp (cards p ! 5)"
    by (simp add: p_def firstStore_piles)
  have "reachable firstStore \<and> p \<in> set (tableau (state firstStore)) \<and> 5 < length (cards p) \<and>
      faceUp (cards p ! 5) \<longrightarrow> list_all faceUp (getMovableCards p (int 5))"
    using getMovableCards_chain [of p 0 5 firstStore] by blast
  then have r: "list_all faceUp (getMovableCards p 5)"
    using firstStore_reachable mem up by simp
  show ?thesis using d s m f su firstStore_reachable up r unfolding p_def by simp
qed

text \<open>
  C5. With pile indices of the tableau, a move is a no-op that returns (it does not throw)
  and clears the selection when source and destination are the same pile, when the
  selected run is empty, or when its first card cannot be placed on the destination; a deal
  that \<open>canDeal\<close> forbids, and \<open>undo\<close> with an empty history, return the store as it is.
  Clearing the selection changes neither the game state nor the history. On a reachable
  store \<open>undo\<close> and \<open>deal\<close> always return, and so does \<open>moveCards\<close> for every pile index of
  the tableau.
\<close>

theorem illegal_operations_noop:
  "(selectedPile g = Some sp \<and> selectedCardIndex g = Some sci \<and>
    sp < length (tableau (state g)) \<and> t < length (tableau (state g)) \<and>
    (sp = t \<or> getMovableCards (tableau (state g) ! sp) (int sci) = [] \<or>
     \<not> canPlaceCard (hd (getMovableCards (tableau (state g) ! sp) (int sci)))
         (topCard (tableau (state g) ! t)))
    \<longrightarrow> moveCards clock g t = Inr (clearSelection g)) \<and>
   (\<not> canDeal g \<longrightarrow> deal clock g = Inr g) \<and>
   (history g = [] \<longrightarrow> undo g = Inr g) \<and>
   state (clearSelection g) = state g \<and>
   history (clearSelection g) = history g \<and>
   selectedPile (clearSelection g) = None \<and>
   selectedCardIndex (clearSelection g) = None \<and>
   (reachable g \<longrightarrow>
      (\<exists>g'. undo g = Inr g') \<and> (\<exists>g'. deal clock g = Inr g') \<and>
      (t < length (tableau (state g)) \<longrightarrow> (\<exists>g'. moveCards clock g t = Inr g')))"
proof -
  have "reachable g \<longrightarrow>
      (\<exists>g'. undo g = Inr g') \<and> (\<exists>g'. deal clock g = Inr g') \<and>
      (t < length (tableau (state g)) \<longrightarrow> (\<exists>g'. moveCards clock g t = Inr g'))"
    using played_returns [OF reachable_played, of g clock t] by blast
  then show ?thesis
    using moveCards_illegal [of g sp sci t clock] deal_noop [of g clock] undo_empty [of g]
    by (simp add: clearSelection_def)
qed

theorem illegal_operations_noop_witness:
  "moveCards (\<lambda>i. 0) kingSelected 0 = Inr (clearSelection kingSelected) \<and>
   moveCards (\<lambda>i. 0) kingSelected 1 = Inr (clearSelection kingSelected) \<and>
   moveCards (\<lambda>i. 0) (kingSelected\<lparr>selectedCardIndex := Some 1\<rparr>) 1 =
     Inr (clearSelection (kingSelected\<lparr>selectedCardIndex := Some 1\<rparr>)) \<and>
   state (clearSelection kingSelected) = tenPiles \<and>
   deal (\<lambda>i. 0) (storeOf emptyPileState) = Inr (storeOf emptyPileState) \<and>
   undo (storeOf emptyPileState) = Inr (storeOf emptyPileState) \<and>
   reachable firstStore \<and>
   (\<exists>g'. undo firstStore = Inr g') \<and> (\<exists>g'. deal (\<lambda>i. 0) firstStore = Inr g') \<and>
   (\<exists>g'. moveCards (\<lambda>i. 0) firstStore 9 = Inr g')"
proof -
  have sel: "selectedPile kingSelected = Some 0 \<and> selectedCardIndex kingSelected = Some 0 \<and>
      0 < length (tableau (state kingSelected)) \<and> 1 < length (tableau (state kingSelected))"
    by (simp add: kingSelected_def storeOf_def tenPiles_def)
  have place: "\<not> canPlaceCard (hd (getMovableCards (tableau (state kingSelected) ! 0) (int 0)))
      (topCard (tableau (state kingSelected) ! 1))"
    by (simp add: kingSelected_def storeOf_def tenPiles_def getMovableCards_def canPlaceCard_def
        topCard_def mkCard_def upt_rec)
  have sel1: "selectedPile (kingSelected\<lparr>selectedCardIndex := Some 1\<rparr>) = Some 0 \<and>
      selectedCardIndex (kingSelected\<lparr>selectedCardIndex := Some 1\<rparr>) = Some 1 \<and>
      0 < length (tableau (state (kingSelected\<lparr>selectedCardIndex := Some 1\<rparr>))) \<and>
      1 < length (tableau (state (kingSelected\<lparr>selectedCardIndex := Some 1\<rparr>)))"
    by (simp add: kingSelected_def storeOf_def tenPiles_def)
  have emptyrun: "getMovableCards (tableau (state (kingSelected\<lparr>selectedCardIndex := Some 1\<rparr>)) ! 0) (int 1) = []"
    by (simp add: kingSelected_def storeOf_def tenPiles_def getMovableCards_def
        mkCard_def upt_rec)
  have nodeal: "\<not> canDeal (storeOf emptyPileState)"
    by (simp add: canDeal_def storeOf_def emptyPileState_def tenPiles_def upt_rec numeral_eq_Suc)
  have nohist: "history (storeOf emptyPileState) = []" by (simp add: storeOf_def)
  have nine: "9 < length (tableau (state firstStore))" by (simp add: firstStore_piles)
  have "moveCards (\<lambda>i. 0) kingSelected 0 = Inr (clearSelection kingSelected)"
    using illegal_operations_noop [of kingSelected 0 0 0 "\<lambda>i. 0"] sel by blast
  moreover have "moveCards (\<lambda>i. 0) kingSelected 1 = Inr (clearSelection kingSelected)"
    using illegal_operations_noop [of kingSelected 0 0 1 "\<lambda>i. 0"] sel place by simp
  moreover have "moveCards (\<lambda>i. 0) (kingSelected\<lparr>selectedCardIndex := Some 1\<rparr>) 1 =
     Inr (clearSelection (kingSelected\<lparr>selectedCardIndex := Some 1\<rparr>))"
    using illegal_operations_noop [of "kingSelected\<lparr>selectedCardIndex := Some 1\<rparr>" 0 1 1 "\<lambda>i. 0"]
      sel1 emptyrun by blast
  moreover have "state (clearSelection kingSelected) = tenPiles"
    using illegal_operations_noop [of kingSelected] by (simp add: kingSelected_def storeOf_def)
  moreover have "deal (\<lambda>i. 0) (storeOf emptyPileState) = Inr (storeOf emptyPileState)"
    using illegal_operations_noop [of "storeOf emptyPileState" 0 0 0 "\<lambda>i. 0"] nodeal by blast
  moreover have "undo (storeOf emptyPileState) = Inr (storeOf emptyPileState)"
    using illegal_operations_noop [of "storeOf emptyPileState"] nohist by blast
  moreover have "(\<exists>g'. undo firstStore = Inr g') \<and> (\<exists>g'. deal (\<lambda>i. 0) firstStore = Inr g') \<and>
      (\<exists>g'. moveCards (\<lambda>i. 0) firstStore 9 = Inr g')"
    using illegal_operations_noop [of firstStore 0 0 9 "\<lambda>i. 0"] firstStore_reachable nine
    by blast
  ultimately show ?thesis using firstStore_reachable by blast
qed

end
